theory Spec2Isabelle
  imports Complex_Main "HOL-Library.Multiset"
begin

section \<open>The proxy checkers \<open>proxy.py\<close> and \<open>proxy2.py\<close>\<close>

text \<open>
  Two scripts share one shape: load a list of proxy addresses from a text file, probe every
  address through a thread pool, collect the addresses whose probe passed, print a summary
  and save the collected list. \<open>proxy.py\<close> probes with \<open>check_proxy_simple\<close>,
  \<open>proxy2.py\<close> with \<open>check_proxy_thorough\<close>.

  What lies outside the two files is a parameter of the model:
  \<^item> the network: \<open>requests.get\<close> is a function from the request to its outcome, a
    response or a raised exception;
  \<^item> \<open>urllib.parse.urlparse\<close>, which returns a parse result or raises;
  \<^item> the console of the probers: \<open>print\<close> writes a line or raises, as it does with
    \<open>UnicodeEncodeError\<close> when the standard output cannot encode the check mark or the
    cross the probers print;
  \<^item> the file system, a map from file names to the text of the file;
  \<^item> the order in which the futures of the thread pool complete.
  The console output of \<open>main\<close> itself (the banner, the progress line, the summary,
  \<open>input\<close>) is not modelled: what \<open>main\<close> prints before it saves the list is
  made of ASCII characters, and what it prints afterwards changes neither
  \<open>working_proxies\<close> nor the files. Python strings are modelled as \<open>string\<close>;
  a character is a code point below 256.
\<close>

subsection \<open>Strings\<close>

abbreviation LF :: char where "LF \<equiv> CHR 0x0A"

abbreviation CR :: char where "CR \<equiv> CHR 0x0D"

text \<open>The characters below 256 for which \<open>str.isspace\<close> holds.\<close>

definition whitespace :: "char list" where
  "whitespace =
    [CHR 0x09, LF, CHR 0x0B, CHR 0x0C, CR, CHR 0x1C, CHR 0x1D, CHR 0x1E, CHR 0x1F,
     CHR 0x20, CHR 0x85, CHR 0xA0]"

definition isspace :: "char \<Rightarrow> bool" where
  "isspace c = (c \<in> set whitespace)"

definition lstrip :: "string \<Rightarrow> string" where
  "lstrip s = dropWhile isspace s"

definition rstrip :: "string \<Rightarrow> string" where
  "rstrip s = rev (dropWhile isspace (rev s))"

definition strip :: "string \<Rightarrow> string" where
  "strip s = lstrip (rstrip s)"

text \<open>\<open>str\<close> of an integer.\<close>

fun str_nat :: "nat \<Rightarrow> string" where
  "str_nat n =
    (if n < 10 then [''0123456789'' ! n]
     else str_nat (n div 10) @ [''0123456789'' ! (n mod 10)])"

definition str_int :: "int \<Rightarrow> string" where
  "str_int i = (if i < 0 then ''-'' @ str_nat (nat (- i)) else str_nat (nat i))"

text \<open>\<open>sep.join(xs)\<close>\<close>

fun join :: "string \<Rightarrow> string list \<Rightarrow> string" where
  "join sep [] = []"
| "join sep [x] = x"
| "join sep (x # y # ys) = x @ sep @ join sep (y # ys)"

subsection \<open>Exceptions, responses, requests\<close>

text \<open>
  An \<open>except C\<close> clause catches an exception whose class is \<open>C\<close> or a subclass of it.
  An exception value therefore carries its class and the other classes of its method
  resolution order; the classes the two files name have a constructor each.
\<close>

datatype exc_class =
    SSLError | ProxyError | ConnectTimeout | ConnectionError | Exception
  | OtherClass string

datatype exn = Exn (exn_type: exc_class) (exn_bases: "exc_class list")

definition isinstance :: "exn \<Rightarrow> exc_class \<Rightarrow> bool" where
  "isinstance e c = (c = exn_type e \<or> c \<in> set (exn_bases e))"

text \<open>\<open>type(e).__name__\<close>\<close>

fun class_name :: "exc_class \<Rightarrow> string" where
  "class_name SSLError = ''SSLError''"
| "class_name ProxyError = ''ProxyError''"
| "class_name ConnectTimeout = ''ConnectTimeout''"
| "class_name ConnectionError = ''ConnectionError''"
| "class_name Exception = ''Exception''"
| "class_name (OtherClass n) = n"

record response =
  status_code :: int
  resp_text :: string

datatype outcome = Returns response | Raises exn

text \<open>
  The arguments of one \<open>requests.get\<close> call. \<open>allow_redirects\<close> and \<open>verify\<close> are
  \<open>None\<close> where the call does not pass them.
\<close>

record request =
  url :: string
  proxies :: "(string \<times> string) list"
  timeout :: nat
  headers :: "(string \<times> string) list"
  allow_redirects :: "bool option"
  verify :: "bool option"

type_synonym network = "request \<Rightarrow> outcome"

text \<open>
  A run of a function that talks to the network: the value it returns (\<open>Inr\<close>) or the
  exception it lets escape (\<open>Inl\<close>), and the requests it issued, in order.
\<close>

type_synonym 'a run = "(exn + 'a) \<times> request list"

definition issued :: "request \<Rightarrow> 'a run \<Rightarrow> 'a run" where
  "issued rq r = (fst r, rq # snd r)"

definition proxies_dict :: "string \<Rightarrow> (string \<times> string) list" where
  "proxies_dict proxy = [(''http'', proxy), (''https'', proxy)]"

text \<open>
  A line handed to \<open>print\<close>. The probers begin their lines with a check mark (U+2713)
  or a cross (U+2717), which lie outside the characters of \<open>string\<close>; \<open>Marked m s\<close>
  is the line made of the mark \<open>m\<close> and the text \<open>s\<close>.
\<close>

datatype mark = Check_mark | Cross_mark

datatype printed = Marked mark string | Plain string

text \<open>
  \<open>print(line)\<close>: \<open>None\<close> when the line is written, \<open>Some e\<close> when \<open>print\<close>
  raises \<open>e\<close>.
\<close>

type_synonym console = "printed \<Rightarrow> exn option"

text \<open>Printing several lines stops at the first \<open>print\<close> that raises.\<close>

fun print_all :: "console \<Rightarrow> printed list \<Rightarrow> exn option" where
  "print_all console [] = None"
| "print_all console (line # lines) =
    (case console line of Some e \<Rightarrow> Some e | None \<Rightarrow> print_all console lines)"

subsection \<open>\<open>proxy.py\<close>: \<open>check_proxy_simple\<close>\<close>

definition test_urls :: "string list" where
  "test_urls =
    [''http://httpbin.org/ip'',
     ''https://api.ipify.org?format=json'',
     ''http://icanhazip.com'',
     ''https://checkip.amazonaws.com'']"

definition simple_request :: "string \<Rightarrow> string \<Rightarrow> request" where
  "simple_request proxy u =
    \<lparr>url = u, proxies = proxies_dict proxy, timeout = 7,
     headers = [(''User-Agent'',
       ''Mozilla/5.0 (Windows NT 10.0; Win64; x64) AppleWebKit/537.36'')],
     allow_redirects = None, verify = None\<rparr>"

text \<open>
  The line of the 200 branch:
  \<open>content = response.text.strip()\<close>, then the check mark and
  \<open>f" WORKING: {proxy} | Response: {content[:50]}..."\<close>.
\<close>

definition working_line :: "string \<Rightarrow> response \<Rightarrow> printed" where
  "working_line proxy response =
    (let content = strip (resp_text response)
     in Marked Check_mark
          ('' WORKING: '' @ proxy @ '' | Response: '' @ take 50 content @ ''...''))"

text \<open>
  What the body of the \<open>try\<close> does with one URL: it returns from the function, it
  ends without returning (a status other than 200), or it raises. The \<open>print\<close> of the
  200 branch stands inside the \<open>try\<close>: what it raises is raised by the body.
\<close>

datatype attempt = Returned "bool \<times> string" | Not_200 | Raised exn

definition simple_try :: "console \<Rightarrow> network \<Rightarrow> string \<Rightarrow> request \<Rightarrow> attempt" where
  "simple_try console get proxy rq =
    (case get rq of
       Raises e \<Rightarrow> Raised e
     | Returns response \<Rightarrow>
         if status_code response = 200
         then (case console (working_line proxy response) of
                 Some e \<Rightarrow> Raised e
               | None \<Rightarrow> Returned (True, proxy))
         else Not_200)"

text \<open>
  A handler that prints its line and leaves the loop with \<open>break\<close>, which reaches
  \<open>return False, proxy\<close>. Its \<open>print\<close> stands outside the \<open>try\<close>: what it
  raises leaves the function.
\<close>

definition print_and_break ::
  "console \<Rightarrow> printed \<Rightarrow> string \<Rightarrow> request \<Rightarrow> (bool \<times> string) run" where
  "print_and_break console line proxy rq =
    (case console line of
       Some e \<Rightarrow> (Inl e, [rq])
     | None \<Rightarrow> (Inr (False, proxy), [rq]))"

text \<open>
  The \<open>for url in test_urls\<close> loop. The \<open>except\<close> clauses are tried in the order of
  the source; \<open>continue\<close> and a body that ends without returning go to the next URL; the
  end of the list reaches \<open>return False, proxy\<close>; an exception that no clause catches
  leaves the function.
\<close>

fun simple_loop ::
  "console \<Rightarrow> network \<Rightarrow> string \<Rightarrow> string list \<Rightarrow> (bool \<times> string) run" where
  "simple_loop console get proxy [] = (Inr (False, proxy), [])"
| "simple_loop console get proxy (u # us) =
    (let rq = simple_request proxy u in
     case simple_try console get proxy rq of
       Returned result \<Rightarrow> (Inr result, [rq])
     | Not_200 \<Rightarrow> issued rq (simple_loop console get proxy us)
     | Raised e \<Rightarrow>
         if isinstance e ConnectTimeout
         then print_and_break console (Marked Cross_mark ('' Timeout: '' @ proxy)) proxy rq
         else if isinstance e ConnectionError
         then print_and_break console
                (Marked Cross_mark ('' Connection failed: '' @ proxy)) proxy rq
         else if isinstance e ProxyError
         then print_and_break console (Marked Cross_mark ('' Proxy error: '' @ proxy)) proxy rq
         else if isinstance e Exception then issued rq (simple_loop console get proxy us)
         else (Inl e, [rq]))"

definition check_proxy_simple :: "console \<Rightarrow> network \<Rightarrow> string \<Rightarrow> (bool \<times> string) run" where
  "check_proxy_simple console get proxy = simple_loop console get proxy test_urls"

subsection \<open>\<open>proxy2.py\<close>: \<open>check_proxy_thorough\<close>\<close>

text \<open>The six fields of \<open>urllib.parse.ParseResult\<close>.\<close>

record parse_result =
  scheme :: string
  netloc :: string
  path :: string
  params :: string
  query :: string
  fragment :: string

type_synonym urlparser = "string \<Rightarrow> exn + parse_result"

definition test_sites :: "(string \<times> string) list" where
  "test_sites =
    [(''https://www.google.com'', ''Google''),
     (''https://www.wikipedia.org'', ''Wikipedia''),
     (''http://example.com'', ''Example.com'')]"

definition thorough_request :: "string \<Rightarrow> string \<Rightarrow> request" where
  "thorough_request proxy u =
    \<lparr>url = u, proxies = proxies_dict proxy, timeout = 10,
     headers = [(''User-Agent'',
       ''Mozilla/5.0 (Windows NT 10.0; Win64; x64) AppleWebKit/537.36 (KHTML, like Gecko) Chrome/120.0.0.0 Safari/537.36'')],
     allow_redirects = Some True, verify = Some True\<rparr>"

text \<open>The dictionary \<open>results\<close>.\<close>

record results =
  passed :: nat
  failed :: nat
  errors :: "string list"

text \<open>\<open>results['failed'] += 1; results['errors'].append(msg)\<close>\<close>

definition record_failure :: "results \<Rightarrow> string \<Rightarrow> results" where
  "record_failure res msg = res\<lparr>failed := failed res + 1, errors := errors res @ [msg]\<rparr>"

text \<open>
  The \<open>for url, name in test_sites\<close> loop. Every clause of the \<open>try\<close> goes on to the
  next site; an exception that no clause catches leaves the function.
\<close>

fun thorough_loop ::
  "network \<Rightarrow> string \<Rightarrow> (string \<times> string) list \<Rightarrow> results \<Rightarrow> results run" where
  "thorough_loop get proxy [] res = (Inr res, [])"
| "thorough_loop get proxy ((u, name) # sites) res =
    (let rq = thorough_request proxy u in
     case get rq of
       Returns response \<Rightarrow>
         if status_code response = 200
         then issued rq (thorough_loop get proxy sites (res\<lparr>passed := passed res + 1\<rparr>))
         else issued rq (thorough_loop get proxy sites
                (record_failure res (name @ '': Status '' @ str_int (status_code response))))
     | Raises e \<Rightarrow>
         if isinstance e SSLError
         then issued rq (thorough_loop get proxy sites
                (record_failure res (name @ '': SSL Error'')))
         else if isinstance e ProxyError
         then issued rq (thorough_loop get proxy sites
                (record_failure res (name @ '': Proxy Error'')))
         else if isinstance e ConnectTimeout
         then issued rq (thorough_loop get proxy sites
                (record_failure res (name @ '': Timeout'')))
         else if isinstance e ConnectionError
         then issued rq (thorough_loop get proxy sites
                (record_failure res (name @ '': Connection Failed'')))
         else if isinstance e Exception
         then issued rq (thorough_loop get proxy sites
                (record_failure res (name @ '': '' @ class_name (exn_type e))))
         else (Inl e, [rq]))"

text \<open>
  The lines printed after the loop: the check mark and \<open>f" WORKING: {proxy}"\<close>, or
  the cross and \<open>f" FAILED: {proxy} (Passed {results['passed']}/{len(test_sites)})"\<close>,
  followed, when there are errors, by
  \<open>f"  Errors: {', '.join(results['errors'][:2])}"\<close>.
\<close>

definition result_lines :: "string \<Rightarrow> bool \<Rightarrow> results \<Rightarrow> printed list" where
  "result_lines proxy is_working res =
    (if is_working then [Marked Check_mark ('' WORKING: '' @ proxy)]
     else Marked Cross_mark
            ('' FAILED: '' @ proxy @ '' (Passed '' @ str_nat (passed res) @ ''/'' @
             str_nat (length test_sites) @ '')'') #
          (if errors res \<noteq> []
           then [Plain (''  Errors: '' @ join '', '' (take 2 (errors res)))]
           else []))"

text \<open>
  \<open>urlparse(proxy)\<close> is called before the loop and outside every \<open>try\<close>: when it
  raises, the exception leaves the function and no request is issued. \<open>proxy_type\<close> is
  computed and never used. The lines after the loop are printed outside every \<open>try\<close>
  too: when a \<open>print\<close> raises, the function returns nothing.
\<close>

definition check_proxy_thorough ::
  "urlparser \<Rightarrow> console \<Rightarrow> network \<Rightarrow> string \<Rightarrow> (bool \<times> string \<times> results) run" where
  "check_proxy_thorough urlparse console get proxy =
    (case urlparse proxy of
       Inl e \<Rightarrow> (Inl e, [])
     | Inr parsed \<Rightarrow>
        (let proxy_type = (if scheme parsed \<noteq> [] then scheme parsed else ''http'');
             r = thorough_loop get proxy test_sites \<lparr>passed = 0, failed = 0, errors = []\<rparr>
         in case fst r of
              Inl e \<Rightarrow> (Inl e, snd r)
            | Inr res \<Rightarrow>
               (let is_working = (passed res = length test_sites \<and> failed res = 0)
                in case print_all console (result_lines proxy is_working res) of
                     Some e \<Rightarrow> (Inl e, snd r)
                   | None \<Rightarrow> (Inr (is_working, proxy, res), snd r))))"

subsection \<open>Loading the proxy list\<close>

text \<open>
  \<open>open(name, "r")\<close> reads text with universal newlines: \<open>\r\n\<close> and a lone
  \<open>\r\<close> arrive as \<open>\n\<close>.
\<close>

fun universal_newlines :: "string \<Rightarrow> string" where
  "universal_newlines [] = []"
| "universal_newlines [c] = [if c = CR then LF else c]"
| "universal_newlines (c # d # cs) =
    (if c = CR \<and> d = LF then LF # universal_newlines cs
     else if c = CR then LF # universal_newlines (d # cs)
     else c # universal_newlines (d # cs))"

text \<open>
  \<open>for line in f\<close>: every line comes with its terminating \<open>\n\<close>; the last line has
  none when the text does not end in one. \<open>line\<close> is the part of the current line that
  has been read.
\<close>

fun readlines_from :: "string \<Rightarrow> string \<Rightarrow> string list" where
  "readlines_from line [] = (if line = [] then [] else [line])"
| "readlines_from line (c # cs) =
    (if c = LF then (line @ [c]) # readlines_from [] cs
     else readlines_from (line @ [c]) cs)"

definition readlines :: "string \<Rightarrow> string list" where
  "readlines content = readlines_from [] (universal_newlines content)"

text \<open>\<open>[line.strip() for line in f if line.strip()]\<close>\<close>

definition load_proxies :: "string \<Rightarrow> string list" where
  "load_proxies content = [strip line. line \<leftarrow> readlines content, strip line \<noteq> []]"

text \<open>
  The same list in the words of the specification: the text is cut at its newlines, the
  lines that are empty or hold only whitespace are dropped, the others are stripped.
\<close>

fun split_lines :: "string \<Rightarrow> string list" where
  "split_lines [] = [[]]"
| "split_lines (c # cs) =
    (if c = LF then [] # split_lines cs
     else (case split_lines cs of [] \<Rightarrow> [[c]] | l # ls \<Rightarrow> (c # l) # ls))"

definition blank :: "string \<Rightarrow> bool" where
  "blank l = (\<forall>c\<in>set l. isspace c)"

definition non_blank_lines_stripped :: "string \<Rightarrow> string list" where
  "non_blank_lines_stripped content =
    map strip (filter (\<lambda>l. \<not> blank l) (split_lines (universal_newlines content)))"

subsection \<open>The pool runner and \<open>main\<close>\<close>

type_synonym files = "string \<rightharpoonup> string"

text \<open>
  The exception that ends \<open>main\<close>: the \<open>ZeroDivisionError\<close> of the success rate, or
  the exception of a worker, which \<open>future.result()\<close> raises again.
\<close>

datatype main_error = ZeroDivisionError | WorkerException exn

text \<open>
  \<open>FileMissing\<close> is the early \<open>return\<close> of the \<open>except FileNotFoundError\<close> clause;
  \<open>Finished\<close> is a run that went through the division of the success rate and the
  saving of the list; it carries \<open>working_proxies\<close> and the files as \<open>main\<close>
  leaves them.
\<close>

datatype main_result =
    FileMissing
  | Crashed main_error
  | Finished (working_proxies: "string list") (files_after: files)

text \<open>
  \<open>as_completed\<close> yields every submitted future once, in the order of completion.
  \<open>finish i\<close> is the time at which the future submitted as number \<open>i\<close> completes.
\<close>

definition as_completed :: "(nat \<Rightarrow> nat) \<Rightarrow> 'a list \<Rightarrow> 'a list" where
  "as_completed finish futures =
    map snd (sort_key (\<lambda>(i, future). finish i) (enumerate 0 futures))"

text \<open>
  The loop over \<open>as_completed\<close> in \<open>proxy.py\<close>: \<open>future.result()\<close> raises what the
  worker raised; a passing proxy is appended to \<open>working_proxies\<close>.
\<close>

fun collect_simple :: "(exn + bool \<times> string) list \<Rightarrow> string list \<Rightarrow> main_error + string list" where
  "collect_simple [] working = Inr working"
| "collect_simple (Inl e # rest) working = Inl (WorkerException e)"
| "collect_simple (Inr (is_working, proxy) # rest) working =
    collect_simple rest (if is_working then working @ [proxy] else working)"

text \<open>The same loop in \<open>proxy2.py\<close>, where a result has three components.\<close>

fun collect_thorough ::
  "(exn + bool \<times> string \<times> results) list \<Rightarrow> string list \<Rightarrow> main_error + string list" where
  "collect_thorough [] working = Inr working"
| "collect_thorough (Inl e # rest) working = Inl (WorkerException e)"
| "collect_thorough (Inr (is_working, proxy, res) # rest) working =
    collect_thorough rest (if is_working then working @ [proxy] else working)"

text \<open>
  \<open>len(working_proxies)/total*100\<close>. The quotient is a float in Python and is only
  printed; its rounding is not modelled.
  \<open>total_count\<close> is the variable \<open>total\<close>.
\<close>

definition success_rate :: "nat \<Rightarrow> nat \<Rightarrow> main_error + rat" where
  "success_rate working total_count =
    (if total_count = 0 then Inl ZeroDivisionError
     else Inr (of_nat working / of_nat total_count * 100))"

text \<open>\<open>for proxy in working_proxies: f.write(proxy + "\n")\<close> on a file opened with \<open>"w"\<close>.\<close>

definition lines_written :: "string list \<Rightarrow> string list" where
  "lines_written working = map (\<lambda>proxy. proxy @ [LF]) working"

definition write_lines :: "string list \<Rightarrow> string" where
  "write_lines working = concat (lines_written working)"

text \<open>
  \<open>main\<close> of \<open>proxy.py\<close>. \<open>net i\<close> is the network as the worker for the \<open>i\<close>-th
  loaded proxy meets it; \<open>console\<close> is the console of the workers.
\<close>

definition main_simple ::
  "files \<Rightarrow> console \<Rightarrow> (nat \<Rightarrow> network) \<Rightarrow> (nat \<Rightarrow> nat) \<Rightarrow> main_result" where
  "main_simple files console net finish =
    (case files ''proxies.txt'' of
       None \<Rightarrow> FileMissing
     | Some content \<Rightarrow>
        (let proxies = load_proxies content;
             total_count = length proxies;
             futures = map (\<lambda>(i, proxy). fst (check_proxy_simple console (net i) proxy))
                         (enumerate 0 proxies)
         in case collect_simple (as_completed finish futures) [] of
              Inl e \<Rightarrow> Crashed e
            | Inr working \<Rightarrow>
               (case success_rate (length working) total_count of
                  Inl e \<Rightarrow> Crashed e
                | Inr rate \<Rightarrow>
                   if working \<noteq> []
                   then Finished working (files(''working_proxies.txt'' \<mapsto> write_lines working))
                   else Finished working files)))"

text \<open>\<open>main\<close> of \<open>proxy2.py\<close>.\<close>

definition main_thorough ::
  "files \<Rightarrow> urlparser \<Rightarrow> console \<Rightarrow> (nat \<Rightarrow> network) \<Rightarrow> (nat \<Rightarrow> nat) \<Rightarrow> main_result" where
  "main_thorough files urlparse console net finish =
    (case files ''working_proxies.txt'' of
       None \<Rightarrow> FileMissing
     | Some content \<Rightarrow>
        (let proxies = load_proxies content;
             total_count = length proxies;
             futures =
               map (\<lambda>(i, proxy). fst (check_proxy_thorough urlparse console (net i) proxy))
                 (enumerate 0 proxies)
         in case collect_thorough (as_completed finish futures) [] of
              Inl e \<Rightarrow> Crashed e
            | Inr working \<Rightarrow>
               (case success_rate (length working) total_count of
                  Inl e \<Rightarrow> Crashed e
                | Inr rate \<Rightarrow>
                   if working \<noteq> []
                   then Finished working
                          (files(''verified_working_proxies.txt'' \<mapsto> write_lines working))
                   else Finished working files)))"

subsection \<open>The vocabulary of the properties\<close>

text \<open>What one request met: a response with status 200.\<close>

definition returns_200 :: "outcome \<Rightarrow> bool" where
  "returns_200 out =
    (case out of Returns response \<Rightarrow> status_code response = 200 | Raises e \<Rightarrow> False)"

text \<open>An exception of class \<open>ConnectTimeout\<close>, \<open>ConnectionError\<close> or \<open>ProxyError\<close>.\<close>

definition connection_failure :: "outcome \<Rightarrow> bool" where
  "connection_failure out =
    (case out of
       Returns response \<Rightarrow> False
     | Raises e \<Rightarrow>
         isinstance e ConnectTimeout \<or> isinstance e ConnectionError \<or> isinstance e ProxyError)"

text \<open>An exception, that is an instance of \<open>Exception\<close>.\<close>

definition raises_exception :: "outcome \<Rightarrow> bool" where
  "raises_exception out =
    (case out of Returns response \<Rightarrow> False | Raises e \<Rightarrow> isinstance e Exception)"

text \<open>A status other than 200, or an exception other than the three above.\<close>

definition moves_on :: "outcome \<Rightarrow> bool" where
  "moves_on out =
    (case out of
       Returns response \<Rightarrow> status_code response \<noteq> 200
     | Raises e \<Rightarrow> isinstance e Exception \<and> \<not> connection_failure out)"

text \<open>A response, or an exception that is an instance of \<open>Exception\<close>.\<close>

definition answered :: "outcome \<Rightarrow> bool" where
  "answered out = (case out of Returns response \<Rightarrow> True | Raises e \<Rightarrow> isinstance e Exception)"

text \<open>The line of the handler that catches an exception of one of the three classes.\<close>

definition failure_line :: "string \<Rightarrow> exn \<Rightarrow> printed" where
  "failure_line proxy e =
    (if isinstance e ConnectTimeout then Marked Cross_mark ('' Timeout: '' @ proxy)
     else if isinstance e ConnectionError
     then Marked Cross_mark ('' Connection failed: '' @ proxy)
     else Marked Cross_mark ('' Proxy error: '' @ proxy))"

text \<open>
  The line \<open>check_proxy_simple\<close> prints when a request has this outcome: the line of the
  200 branch, the line of a handler that breaks, or none.
\<close>

definition printed_for :: "string \<Rightarrow> outcome \<Rightarrow> printed list" where
  "printed_for proxy out =
    (case out of
       Returns response \<Rightarrow>
         if status_code response = 200 then [working_line proxy response] else []
     | Raises e \<Rightarrow> if connection_failure out then [failure_line proxy e] else [])"

text \<open>The console writes these lines: no \<open>print\<close> of them raises.\<close>

definition printable :: "console \<Rightarrow> printed list \<Rightarrow> bool" where
  "printable console lines = (print_all console lines = None)"

text \<open>
  \<open>tally get tr res res'\<close>: between \<open>res\<close> and \<open>res'\<close> every request of \<open>tr\<close> was
  counted once, as passed when it returned 200 and as failed, with one error message,
  otherwise.
\<close>

definition tally :: "network \<Rightarrow> request list \<Rightarrow> results \<Rightarrow> results \<Rightarrow> bool" where
  "tally get tr res res' \<longleftrightarrow>
     passed res' = passed res + length (filter (\<lambda>rq. returns_200 (get rq)) tr) \<and>
     failed res' = failed res + length (filter (\<lambda>rq. \<not> returns_200 (get rq)) tr) \<and>
     length (errors res') =
       length (errors res) + length (filter (\<lambda>rq. \<not> returns_200 (get rq)) tr)"

text \<open>
  A proxy as the loader delivers it: not empty, no whitespace at either end, no line break
  inside.
\<close>

definition clean :: "string \<Rightarrow> bool" where
  "clean p \<longleftrightarrow>
     p \<noteq> [] \<and> \<not> isspace (hd p) \<and> \<not> isspace (last p) \<and> LF \<notin> set p \<and> CR \<notin> set p"

text \<open>The result of a worker is a pass.\<close>

definition is_pass :: "exn + bool \<times> string \<Rightarrow> bool" where
  "is_pass r = (case r of Inl e \<Rightarrow> False | Inr (is_working, proxy) \<Rightarrow> is_working)"

definition without_results :: "exn + bool \<times> string \<times> results \<Rightarrow> exn + bool \<times> string" where
  "without_results r =
    (case r of Inl e \<Rightarrow> Inl e | Inr (is_working, proxy, res) \<Rightarrow> Inr (is_working, proxy))"

text \<open>The worker for a proxy returns \<open>is_working = True\<close>.\<close>

definition simple_passes :: "console \<Rightarrow> network \<Rightarrow> string \<Rightarrow> bool" where
  "simple_passes console get proxy = is_pass (fst (check_proxy_simple console get proxy))"

definition thorough_passes :: "urlparser \<Rightarrow> console \<Rightarrow> network \<Rightarrow> string \<Rightarrow> bool" where
  "thorough_passes urlparse console get proxy =
    is_pass (without_results (fst (check_proxy_thorough urlparse console get proxy)))"

text \<open>The proxies of the results that are a pass, in the order of the results.\<close>

definition passing :: "(exn + bool \<times> string) list \<Rightarrow> string list" where
  "passing rs = map (\<lambda>r. snd (projr r)) (filter is_pass rs)"

subsection \<open>Sample exceptions, networks and files\<close>

text \<open>
  Exceptions with the class hierarchy of \<open>requests.exceptions\<close> and of the built-in
  exceptions.
\<close>

definition requests_ConnectTimeout :: exn where
  "requests_ConnectTimeout =
    Exn ConnectTimeout
      [ConnectionError, OtherClass ''Timeout'', OtherClass ''RequestException'',
       OtherClass ''OSError'', Exception, OtherClass ''BaseException'']"

definition requests_ReadTimeout :: exn where
  "requests_ReadTimeout =
    Exn (OtherClass ''ReadTimeout'')
      [OtherClass ''Timeout'', OtherClass ''RequestException'', OtherClass ''OSError'',
       Exception, OtherClass ''BaseException'']"

definition ValueError :: exn where
  "ValueError = Exn (OtherClass ''ValueError'') [Exception, OtherClass ''BaseException'']"

definition UnicodeEncodeError :: exn where
  "UnicodeEncodeError =
    Exn (OtherClass ''UnicodeEncodeError'')
      [OtherClass ''UnicodeError'', OtherClass ''ValueError'', Exception,
       OtherClass ''BaseException'']"

text \<open>A console that writes every line, and one that cannot encode the two marks.\<close>

definition utf8_console :: console where
  "utf8_console line = None"

definition ascii_console :: console where
  "ascii_console line =
    (case line of Marked m s \<Rightarrow> Some UnicodeEncodeError | Plain s \<Rightarrow> None)"

definition response_200 :: response where
  "response_200 = \<lparr>status_code = 200, resp_text = ''203.0.113.7''\<rparr>"

definition response_503 :: response where
  "response_503 = \<lparr>status_code = 503, resp_text = []\<rparr>"

definition always_200 :: network where
  "always_200 rq = Returns response_200"

definition always_ConnectTimeout :: network where
  "always_ConnectTimeout rq = Raises requests_ConnectTimeout"

definition always_ReadTimeout :: network where
  "always_ReadTimeout rq = Raises requests_ReadTimeout"

text \<open>
  A network on which the first URL of \<open>proxy.py\<close> answers 503, the second times out
  while reading and the third answers 200.
\<close>

definition third_url_200 :: network where
  "third_url_200 rq =
    (if url rq = ''http://httpbin.org/ip'' then Returns response_503
     else if url rq = ''https://api.ipify.org?format=json'' then Raises requests_ReadTimeout
     else Returns response_200)"

text \<open>The same, with a refused connection at the third URL.\<close>

definition third_url_refused :: network where
  "third_url_refused rq =
    (if url rq = ''http://httpbin.org/ip'' then Returns response_503
     else if url rq = ''https://api.ipify.org?format=json'' then Raises requests_ReadTimeout
     else Raises requests_ConnectTimeout)"

text \<open>A network on which Wikipedia answers 503 and the other sites 200.\<close>

definition wikipedia_503 :: network where
  "wikipedia_503 rq =
    (if url rq = ''https://www.wikipedia.org'' then Returns response_503
     else Returns response_200)"

definition every_worker :: "network \<Rightarrow> nat \<Rightarrow> network" where
  "every_worker get i = get"

text \<open>Completion in the order of submission, and in the reverse of it.\<close>

definition in_submission_order :: "nat \<Rightarrow> nat" where
  "in_submission_order i = i"

definition in_reverse_order :: "nat \<Rightarrow> nat" where
  "in_reverse_order i = 100 - i"

text \<open>
  \<open>urllib.parse.urlparse\<close> as far as its \<open>ValueError\<close> for unmatched brackets goes,
  after the library: the text before the first colon is the scheme when it begins with a
  letter and is made of scheme characters; what then begins with \<open>//\<close> has a netloc,
  which ends before the first \<open>/\<close>, \<open>?\<close> or \<open>#\<close>; a netloc with \<open>[\<close> and no
  \<open>]\<close>, or \<open>]\<close> and no \<open>[\<close>, raises \<open>ValueError\<close>. Not modelled: the removal
  of control characters, the further checks of the netloc, and the cutting of what follows
  the netloc into path, parameters, query and fragment (it is left in \<open>path\<close>).
\<close>

definition ascii_uppercase :: string where
  "ascii_uppercase = ''ABCDEFGHIJKLMNOPQRSTUVWXYZ''"

definition ascii_lowercase :: string where
  "ascii_lowercase = ''abcdefghijklmnopqrstuvwxyz''"

definition scheme_chars :: string where
  "scheme_chars = ascii_lowercase @ ascii_uppercase @ ''0123456789+-.''"

definition lower :: "string \<Rightarrow> string" where
  "lower s =
    map (\<lambda>c. case map_of (zip ascii_uppercase ascii_lowercase) c of
                None \<Rightarrow> c | Some d \<Rightarrow> d) s"

definition urlparse_brackets :: urlparser where
  "urlparse_brackets address =
    (let name = takeWhile (\<lambda>c. c \<noteq> CHR '':'') address;
         has_scheme =
           (name \<noteq> address \<and> name \<noteq> [] \<and>
            hd name \<in> set (ascii_lowercase @ ascii_uppercase) \<and>
            list_all (\<lambda>c. c \<in> set scheme_chars) name);
         rest = (if has_scheme then drop (length name + 1) address else address);
         has_netloc = (take 2 rest = ''//'');
         loc = (if has_netloc
                then takeWhile (\<lambda>c. c \<notin> set ''/?#'') (drop 2 rest) else []);
         remainder = (if has_netloc
                  then dropWhile (\<lambda>c. c \<notin> set ''/?#'') (drop 2 rest) else rest)
     in if (CHR ''['' \<in> set loc \<and> CHR '']'' \<notin> set loc) \<or>
           (CHR '']'' \<in> set loc \<and> CHR ''['' \<notin> set loc)
        then Inl ValueError
        else Inr \<lparr>scheme = (if has_scheme then lower name else []), netloc = loc,
                  path = remainder, params = [], query = [], fragment = []\<rparr>)"

definition two_equal_lines :: files where
  "two_equal_lines = [''proxies.txt'' \<mapsto> ''10.0.0.1:8080'' @ [LF] @ ''10.0.0.1:8080'' @ [LF]]"

definition three_lines :: string where
  "three_lines =
    ''10.0.0.1:8080'' @ [CR, LF] @ ''   '' @ [LF] @ ''  socks5://10.0.0.2:1080 '' @ [LF] @
    ''http://[''"

definition sample_files :: files where
  "sample_files = [''proxies.txt'' \<mapsto> three_lines, ''working_proxies.txt'' \<mapsto> three_lines]"

definition good_files :: files where
  "good_files =
    [''proxies.txt'' \<mapsto> ''10.0.0.1:8080'' @ [LF] @ ''10.0.0.2:8080'' @ [LF],
     ''working_proxies.txt'' \<mapsto> ''10.0.0.1:8080'' @ [LF] @ ''10.0.0.2:8080'' @ [LF]]"

definition empty_list_files :: files where
  "empty_list_files = [''proxies.txt'' \<mapsto> '' '' @ [LF], ''working_proxies.txt'' \<mapsto> []]"

section \<open>Properties\<close>

subsection \<open>The loop of \<open>check_proxy_simple\<close>, one URL at a time\<close>

lemma issued_simps [simp]: "fst (issued rq r) = fst r" "snd (issued rq r) = rq # snd r"
  by (simp_all add: issued_def)

lemma url_simple_request [simp]: "url (simple_request proxy u) = u"
  by (simp add: simple_request_def)

lemma url_thorough_request [simp]: "url (thorough_request proxy u) = u"
  by (simp add: thorough_request_def)

lemma distinct_test_urls: "distinct test_urls"
  by (simp add: test_urls_def)

lemma distinct_test_sites: "distinct (map fst test_sites)"
  by (simp add: test_sites_def)

lemma print_and_break_cases:
  "print_and_break console line proxy rq = (Inr (False, proxy), [rq]) \<or>
   (\<exists>e. console line = Some e \<and> print_and_break console line proxy rq = (Inl e, [rq]))"
  by (cases "console line") (simp_all add: print_and_break_def)

lemma print_and_break_printed:
  "console line = None \<Longrightarrow> print_and_break console line proxy rq = (Inr (False, proxy), [rq])"
  by (simp add: print_and_break_def)

text \<open>One URL either ends the loop, with its request the last, or the loop goes on.\<close>

lemma simple_loop_step:
  "(\<exists>r. simple_loop console get proxy (u # us) = (r, [simple_request proxy u]) \<and>
        (\<forall>b q. r = Inr (b, q) \<longrightarrow> q = proxy)) \<or>
   simple_loop console get proxy (u # us) =
     issued (simple_request proxy u) (simple_loop console get proxy us)"
proof (cases "simple_try console get proxy (simple_request proxy u)")
  case (Returned result)
  then have "result = (True, proxy)"
    by (auto simp: simple_try_def split: outcome.splits if_splits option.splits)
  with Returned show ?thesis by simp
next
  case Not_200
  then show ?thesis by simp
next
  case (Raised e)
  let ?rq = "simple_request proxy u"
  have b: "(\<exists>r. print_and_break console line proxy ?rq = (r, [?rq]) \<and>
             (\<forall>b q. r = Inr (b, q) \<longrightarrow> q = proxy))" for line
    using print_and_break_cases [of console line proxy ?rq] by auto
  show ?thesis
    using Raised b by (simp add: Let_def)
qed

lemma simple_loop_moves_on:
  "\<forall>v\<in>set skipped. moves_on (get (simple_request proxy v)) \<Longrightarrow>
   simple_loop console get proxy (skipped @ rest) =
     (fst (simple_loop console get proxy rest),
      map (simple_request proxy) skipped @ snd (simple_loop console get proxy rest))"
proof (induction skipped)
  case Nil
  then show ?case by simp
next
  case (Cons v skipped)
  then have m: "moves_on (get (simple_request proxy v))" by simp
  have "simple_loop console get proxy (v # skipped @ rest) =
        issued (simple_request proxy v) (simple_loop console get proxy (skipped @ rest))"
    using m
    by (auto simp: moves_on_def connection_failure_def simple_try_def Let_def
             split: outcome.splits)
  with Cons show ?case by (simp add: issued_def)
qed

lemma simple_loop_pass:
  assumes "returns_200 (get (simple_request proxy u))"
    and "printable console (printed_for proxy (get (simple_request proxy u)))"
  shows "simple_loop console get proxy (u # later) = (Inr (True, proxy), [simple_request proxy u])"
  using assms
  by (auto simp: returns_200_def printable_def printed_for_def simple_try_def Let_def
           split: outcome.splits option.splits)

lemma simple_loop_abort:
  assumes "connection_failure (get (simple_request proxy u))"
    and "printable console (printed_for proxy (get (simple_request proxy u)))"
  shows "simple_loop console get proxy (u # later) = (Inr (False, proxy), [simple_request proxy u])"
proof -
  obtain e where e: "get (simple_request proxy u) = Raises e"
    using assms(1) by (cases "get (simple_request proxy u)") (simp_all add: connection_failure_def)
  have c: "isinstance e ConnectTimeout \<or> isinstance e ConnectionError \<or> isinstance e ProxyError"
    using assms(1) e by (simp add: connection_failure_def)
  have p: "console (failure_line proxy e) = None"
    using assms e by (simp add: printable_def printed_for_def split: option.splits)
  have t: "simple_try console get proxy (simple_request proxy u) = Raised e"
    using e by (simp add: simple_try_def)
  show ?thesis
    using c p by (auto simp: t failure_line_def print_and_break_printed split: if_splits)
qed

lemma simple_loop_decided:
  assumes "\<forall>v\<in>set skipped. moves_on (get (simple_request proxy v))"
    and "printable console (printed_for proxy (get (simple_request proxy u)))"
  shows "returns_200 (get (simple_request proxy u)) \<Longrightarrow>
         simple_loop console get proxy (skipped @ u # later) =
           (Inr (True, proxy), map (simple_request proxy) (skipped @ [u]))"
    and "connection_failure (get (simple_request proxy u)) \<Longrightarrow>
         simple_loop console get proxy (skipped @ u # later) =
           (Inr (False, proxy), map (simple_request proxy) (skipped @ [u]))"
  using assms
  by (simp_all add: simple_loop_moves_on simple_loop_pass simple_loop_abort
        del: simple_loop.simps)

lemma simple_loop_undecided:
  assumes "\<forall>v\<in>set us. moves_on (get (simple_request proxy v))"
  shows "simple_loop console get proxy us = (Inr (False, proxy), map (simple_request proxy) us)"
  using simple_loop_moves_on [OF assms, of console "[]"] by simp

lemma simple_loop_trace:
  "\<exists>k. snd (simple_loop console get proxy us) = map (simple_request proxy) (take k us) \<and>
       k \<le> length us \<and> (us \<noteq> [] \<longrightarrow> 0 < k)"
proof (induction us)
  case Nil
  then show ?case by simp
next
  case (Cons u us)
  then obtain k where
    k: "snd (simple_loop console get proxy us) = map (simple_request proxy) (take k us)"
    "k \<le> length us" by blast
  from simple_loop_step [of console get proxy u us] show ?case
  proof
    assume "\<exists>r. simple_loop console get proxy (u # us) = (r, [simple_request proxy u]) \<and>
        (\<forall>b q. r = Inr (b, q) \<longrightarrow> q = proxy)"
    then have "snd (simple_loop console get proxy (u # us)) =
        map (simple_request proxy) (take 1 (u # us))"
      by (auto simp del: simple_loop.simps)
    then show ?thesis by (intro exI [of _ 1]) (simp del: simple_loop.simps)
  next
    assume "simple_loop console get proxy (u # us) =
        issued (simple_request proxy u) (simple_loop console get proxy us)"
    then have "snd (simple_loop console get proxy (u # us)) =
        map (simple_request proxy) (take (Suc k) (u # us))"
      using k(1) by (simp del: simple_loop.simps)
    then show ?thesis using k(2) by (intro exI [of _ "Suc k"]) (simp del: simple_loop.simps)
  qed
qed

lemma simple_loop_first:
  "snd (simple_loop console get proxy (u # us)) =
     simple_request proxy u # tl (snd (simple_loop console get proxy (u # us)))"
  using simple_loop_step [of console get proxy u us]
  by (auto simp del: simple_loop.simps)

lemma simple_loop_proxy:
  "fst (simple_loop console get proxy us) = Inr (b, q) \<Longrightarrow> q = proxy"
proof (induction us)
  case Nil
  then show ?case by simp
next
  case (Cons u us)
  from simple_loop_step [of console get proxy u us] show ?case
  proof
    assume "\<exists>r. simple_loop console get proxy (u # us) = (r, [simple_request proxy u]) \<and>
        (\<forall>b q. r = Inr (b, q) \<longrightarrow> q = proxy)"
    with Cons.prems show ?thesis by (auto simp del: simple_loop.simps)
  next
    assume "simple_loop console get proxy (u # us) =
        issued (simple_request proxy u) (simple_loop console get proxy us)"
    with Cons show ?thesis by (simp del: simple_loop.simps)
  qed
qed

lemma check_proxy_simple_requests:
  "\<exists>k. 1 \<le> k \<and> k \<le> 4 \<and>
       snd (check_proxy_simple console get proxy) = map (simple_request proxy) (take k test_urls)"
proof -
  obtain k where
    k: "snd (simple_loop console get proxy test_urls) =
          map (simple_request proxy) (take k test_urls)"
    "k \<le> length test_urls" "test_urls \<noteq> [] \<longrightarrow> 0 < k"
    using simple_loop_trace by blast
  have "length test_urls = 4" "test_urls \<noteq> []" by (simp_all add: test_urls_def)
  with k show ?thesis unfolding check_proxy_simple_def
    by (intro exI [of _ k]) auto
qed

lemma check_proxy_simple_all_200:
  assumes "\<forall>rq\<in>set (snd (check_proxy_simple console get proxy)).
             returns_200 (get rq) \<and> printable console (printed_for proxy (get rq))"
  shows "fst (check_proxy_simple console get proxy) = Inr (True, proxy)"
proof -
  obtain u us where t: "test_urls = u # us" by (simp add: test_urls_def)
  have "simple_request proxy u \<in> set (snd (simple_loop console get proxy (u # us)))"
    using simple_loop_first [of console get proxy u us] by (metis list.set_intros(1))
  with assms have "returns_200 (get (simple_request proxy u))"
    "printable console (printed_for proxy (get (simple_request proxy u)))"
    by (simp_all add: check_proxy_simple_def t del: simple_loop.simps)
  then show ?thesis
    by (simp add: check_proxy_simple_def t simple_loop_pass del: simple_loop.simps)
qed

text \<open>
  When every request raises an exception and the line of the handler is printed, the
  result is \<open>(False, proxy)\<close>.
\<close>

lemma simple_loop_raise_step:
  assumes "raises_exception (get (simple_request proxy u))"
    and "printable console (printed_for proxy (get (simple_request proxy u)))"
  shows "simple_loop console get proxy (u # us) = (Inr (False, proxy), [simple_request proxy u]) \<or>
         simple_loop console get proxy (u # us) =
           issued (simple_request proxy u) (simple_loop console get proxy us)"
proof (cases "connection_failure (get (simple_request proxy u))")
  case True
  then show ?thesis using assms(2) by (simp add: simple_loop_abort del: simple_loop.simps)
next
  case False
  then have "moves_on (get (simple_request proxy u))"
    using assms(1) by (auto simp: moves_on_def raises_exception_def split: outcome.splits)
  then show ?thesis
    using simple_loop_moves_on [of "[u]" get proxy console us] by (simp add: issued_def)
qed

lemma check_proxy_simple_all_raise:
  assumes "\<forall>rq\<in>set (snd (check_proxy_simple console get proxy)).
             raises_exception (get rq) \<and> printable console (printed_for proxy (get rq))"
  shows "fst (check_proxy_simple console get proxy) = Inr (False, proxy)"
proof -
  have "\<forall>rq\<in>set (snd (simple_loop console get proxy us)).
          raises_exception (get rq) \<and> printable console (printed_for proxy (get rq)) \<Longrightarrow>
        fst (simple_loop console get proxy us) = Inr (False, proxy)" for us
  proof (induction us)
    case Nil
    then show ?case by simp
  next
    case (Cons u us)
    have "simple_request proxy u \<in> set (snd (simple_loop console get proxy (u # us)))"
      using simple_loop_first [of console get proxy u us] by (metis list.set_intros(1))
    with Cons.prems have h: "raises_exception (get (simple_request proxy u))"
      "printable console (printed_for proxy (get (simple_request proxy u)))"
      by blast+
    from simple_loop_raise_step [where get = get and proxy = proxy and u = u, OF h, of us]
    show ?case
    proof
      assume "simple_loop console get proxy (u # us) =
                (Inr (False, proxy), [simple_request proxy u])"
      then show ?thesis by (simp del: simple_loop.simps)
    next
      assume a: "simple_loop console get proxy (u # us) =
           issued (simple_request proxy u) (simple_loop console get proxy us)"
      with Cons.prems have "\<forall>rq\<in>set (snd (simple_loop console get proxy us)).
          raises_exception (get rq) \<and> printable console (printed_for proxy (get rq))"
        by (simp del: simple_loop.simps)
      with Cons.IH a show ?thesis by (simp del: simple_loop.simps)
    qed
  qed
  with assms show ?thesis by (simp add: check_proxy_simple_def)
qed

subsection \<open>The loop of \<open>check_proxy_thorough\<close>, one site at a time\<close>

lemma thorough_loop_cases:
  obtains
    (pass) "returns_200 (get (thorough_request proxy u))"
      "thorough_loop get proxy ((u, name) # sites) res =
         issued (thorough_request proxy u)
           (thorough_loop get proxy sites (res\<lparr>passed := passed res + 1\<rparr>))"
  | (fail) msg where "\<not> returns_200 (get (thorough_request proxy u))"
      "thorough_loop get proxy ((u, name) # sites) res =
         issued (thorough_request proxy u)
           (thorough_loop get proxy sites (record_failure res msg))"
  | (escape) e where "get (thorough_request proxy u) = Raises e" "\<not> isinstance e Exception"
      "thorough_loop get proxy ((u, name) # sites) res = (Inl e, [thorough_request proxy u])"
proof (cases "get (thorough_request proxy u)")
  case (Returns response)
  then show ?thesis
    using pass fail
    by (cases "status_code response = 200") (simp_all add: returns_200_def)
next
  case (Raises e)
  then have n: "\<not> returns_200 (get (thorough_request proxy u))"
    by (simp add: returns_200_def)
  show ?thesis
  proof (cases "isinstance e SSLError \<or> isinstance e ProxyError \<or> isinstance e ConnectTimeout
                \<or> isinstance e ConnectionError \<or> isinstance e Exception")
    case True
    then have "\<exists>msg. thorough_loop get proxy ((u, name) # sites) res =
         issued (thorough_request proxy u)
           (thorough_loop get proxy sites (record_failure res msg))"
      using Raises by (simp add: Let_def) blast
    then show ?thesis using fail n by blast
  next
    case False
    then have "thorough_loop get proxy ((u, name) # sites) res = (Inl e, [thorough_request proxy u])"
      using Raises by simp
    then show ?thesis using escape Raises False by blast
  qed
qed

lemma tally_refl: "tally get [] res res"
  by (simp add: tally_def)

lemma tally_pass:
  "returns_200 (get rq) \<Longrightarrow> tally get tr (res\<lparr>passed := passed res + 1\<rparr>) res' \<Longrightarrow>
   tally get (rq # tr) res res'"
  by (simp add: tally_def)

lemma tally_fail:
  "\<not> returns_200 (get rq) \<Longrightarrow> tally get tr (record_failure res msg) res' \<Longrightarrow>
   tally get (rq # tr) res res'"
  by (simp add: tally_def record_failure_def)

lemma thorough_loop_returns:
  "fst (thorough_loop get proxy sites res) = Inr res' \<Longrightarrow>
   snd (thorough_loop get proxy sites res) = map (\<lambda>s. thorough_request proxy (fst s)) sites \<and>
   tally get (snd (thorough_loop get proxy sites res)) res res'"
proof (induction sites arbitrary: res)
  case Nil
  then show ?case by (simp add: tally_refl)
next
  case (Cons s sites)
  obtain u name where s: "s = (u, name)" by (cases s)
  let ?rq = "thorough_request proxy u"
  have continued: ?case
    if ok: "fst (thorough_loop get proxy sites r) = Inr res'"
      and eq: "thorough_loop get proxy (s # sites) res = issued ?rq (thorough_loop get proxy sites r)"
      and t: "\<And>tr. tally get tr r res' \<Longrightarrow> tally get (?rq # tr) res res'" for r
  proof -
    note ih = Cons.IH [OF ok]
    have "snd (thorough_loop get proxy (s # sites) res) = ?rq # snd (thorough_loop get proxy sites r)"
      by (simp only: eq issued_simps)
    moreover have "tally get (?rq # snd (thorough_loop get proxy sites r)) res res'"
      by (rule t) (rule conjunct2 [OF ih])
    ultimately show ?thesis using conjunct1 [OF ih] by (simp add: s del: thorough_loop.simps)
  qed
  show ?case
  proof (cases rule: thorough_loop_cases [of get proxy u name sites res])
    case pass
    show ?thesis
    proof (rule continued)
      show "fst (thorough_loop get proxy sites (res\<lparr>passed := passed res + 1\<rparr>)) = Inr res'"
        using Cons.prems pass(2) by (simp add: s del: thorough_loop.simps)
      show "thorough_loop get proxy (s # sites) res =
            issued ?rq (thorough_loop get proxy sites (res\<lparr>passed := passed res + 1\<rparr>))"
        using pass(2) by (simp only: s)
      show "tally get tr (res\<lparr>passed := passed res + 1\<rparr>) res' \<Longrightarrow>
            tally get (?rq # tr) res res'" for tr
        using pass(1) by (rule tally_pass [of get ?rq])
    qed
  next
    case (fail msg)
    show ?thesis
    proof (rule continued)
      show "fst (thorough_loop get proxy sites (record_failure res msg)) = Inr res'"
        using Cons.prems fail(2) by (simp add: s del: thorough_loop.simps)
      show "thorough_loop get proxy (s # sites) res =
            issued ?rq (thorough_loop get proxy sites (record_failure res msg))"
        using fail(2) by (simp only: s)
      show "tally get tr (record_failure res msg) res' \<Longrightarrow>
            tally get (?rq # tr) res res'" for tr
        using fail(1) by (rule tally_fail [of get ?rq])
    qed
  next
    case (escape e)
    with Cons.prems show ?thesis by (simp add: s del: thorough_loop.simps)
  qed
qed

lemma thorough_loop_raises:
  "fst (thorough_loop get proxy sites res) = Inl e \<Longrightarrow>
   \<exists>rq\<in>set (snd (thorough_loop get proxy sites res)).
      get rq = Raises e \<and> \<not> isinstance e Exception"
proof (induction sites arbitrary: res)
  case Nil
  then show ?case by simp
next
  case (Cons s sites)
  obtain u name where s: "s = (u, name)" by (cases s)
  show ?case
  proof (cases rule: thorough_loop_cases [of get proxy u name sites res])
    case pass
    with Cons.prems Cons.IH [of "res\<lparr>passed := passed res + 1\<rparr>"] show ?thesis
      by (simp add: s del: thorough_loop.simps)
  next
    case (fail msg)
    with Cons.prems Cons.IH [of "record_failure res msg"] show ?thesis
      by (simp add: s del: thorough_loop.simps)
  next
    case (escape e')
    with Cons.prems show ?thesis by (simp add: s del: thorough_loop.simps)
  qed
qed

lemma thorough_loop_trace:
  "\<exists>k. snd (thorough_loop get proxy sites res) =
          map (\<lambda>s. thorough_request proxy (fst s)) (take k sites) \<and>
       k \<le> length sites \<and> (sites \<noteq> [] \<longrightarrow> 0 < k)"
proof (induction sites arbitrary: res)
  case Nil
  then show ?case by simp
next
  case (Cons s sites)
  obtain u name where s: "s = (u, name)" by (cases s)
  have step: "\<exists>k. snd (issued (thorough_request proxy u) (thorough_loop get proxy sites r)) =
          map (\<lambda>s. thorough_request proxy (fst s)) (take k (s # sites)) \<and>
       k \<le> length (s # sites) \<and> 0 < k" for r
  proof -
    obtain k where "snd (thorough_loop get proxy sites r) =
          map (\<lambda>s. thorough_request proxy (fst s)) (take k sites)" "k \<le> length sites"
      using Cons.IH by blast
    then show ?thesis by (intro exI [of _ "Suc k"]) (simp add: s)
  qed
  show ?case
  proof (cases rule: thorough_loop_cases [of get proxy u name sites res])
    case pass
    then show ?thesis using step by (simp add: s del: thorough_loop.simps)
  next
    case (fail msg)
    then show ?thesis using step by (simp add: s del: thorough_loop.simps)
  next
    case (escape e)
    then show ?thesis by (intro exI [of _ 1]) (simp add: s del: thorough_loop.simps)
  qed
qed

subsection \<open>\<open>check_proxy_thorough\<close> as a whole\<close>

lemma check_proxy_thorough_parsed:
  assumes "urlparse proxy = Inr parsed"
  shows "snd (check_proxy_thorough urlparse console get proxy) =
           snd (thorough_loop get proxy test_sites \<lparr>passed = 0, failed = 0, errors = []\<rparr>)"
    and "fst (check_proxy_thorough urlparse console get proxy) =
           (case fst (thorough_loop get proxy test_sites \<lparr>passed = 0, failed = 0, errors = []\<rparr>) of
              Inl e \<Rightarrow> Inl e
            | Inr res \<Rightarrow>
                (case print_all console
                        (result_lines proxy (passed res = 3 \<and> failed res = 0) res) of
                   Some e \<Rightarrow> Inl e
                 | None \<Rightarrow> Inr (passed res = 3 \<and> failed res = 0, proxy, res)))"
proof -
  have "length test_sites = 3" by (simp add: test_sites_def)
  then show "snd (check_proxy_thorough urlparse console get proxy) =
           snd (thorough_loop get proxy test_sites \<lparr>passed = 0, failed = 0, errors = []\<rparr>)"
    and "fst (check_proxy_thorough urlparse console get proxy) =
           (case fst (thorough_loop get proxy test_sites \<lparr>passed = 0, failed = 0, errors = []\<rparr>) of
              Inl e \<Rightarrow> Inl e
            | Inr res \<Rightarrow>
                (case print_all console
                        (result_lines proxy (passed res = 3 \<and> failed res = 0) res) of
                   Some e \<Rightarrow> Inl e
                 | None \<Rightarrow> Inr (passed res = 3 \<and> failed res = 0, proxy, res)))"
    using assms
    by (simp_all add: check_proxy_thorough_def Let_def split: sum.splits option.splits)
qed

lemma check_proxy_thorough_rejected:
  assumes "urlparse proxy = Inl e"
  shows "check_proxy_thorough urlparse console get proxy = (Inl e, [])"
  using assms by (simp add: check_proxy_thorough_def)

text \<open>A request is issued exactly when \<open>urlparse\<close> accepts the address.\<close>

lemma check_proxy_thorough_trace:
  "\<exists>k. k \<le> 3 \<and>
       snd (check_proxy_thorough urlparse console get proxy) =
         map (\<lambda>s. thorough_request proxy (fst s)) (take k test_sites) \<and>
       ((\<exists>parsed. urlparse proxy = Inr parsed) \<longrightarrow> 1 \<le> k)"
proof (cases "urlparse proxy")
  case (Inl e)
  then show ?thesis
    by (intro exI [of _ 0]) (simp add: check_proxy_thorough_rejected)
next
  case (Inr parsed)
  obtain k where k:
    "snd (thorough_loop get proxy test_sites \<lparr>passed = 0, failed = 0, errors = []\<rparr>) =
       map (\<lambda>s. thorough_request proxy (fst s)) (take k test_sites)"
    "k \<le> length test_sites" "test_sites \<noteq> [] \<longrightarrow> 0 < k"
    using thorough_loop_trace by blast
  have "length test_sites = 3" "test_sites \<noteq> []" by (simp_all add: test_sites_def)
  with k show ?thesis
    by (intro exI [of _ k])
       (simp add: check_proxy_thorough_parsed(1) [where urlparse = urlparse and proxy = proxy, OF Inr])
qed

lemma check_proxy_thorough_issued:
  "snd (check_proxy_thorough urlparse console get proxy) \<noteq> [] \<longleftrightarrow>
   (\<exists>parsed. urlparse proxy = Inr parsed)"
proof (cases "urlparse proxy")
  case (Inl e)
  then show ?thesis by (simp add: check_proxy_thorough_rejected)
next
  case (Inr parsed)
  obtain k where "1 \<le> k"
    "snd (check_proxy_thorough urlparse console get proxy) =
       map (\<lambda>s. thorough_request proxy (fst s)) (take k test_sites)"
    using check_proxy_thorough_trace [of urlparse console get proxy] Inr by blast
  then show ?thesis using Inr by (auto simp: test_sites_def)
qed

lemma filter_all_length: "length (filter P xs) = length xs \<longleftrightarrow> (\<forall>x\<in>set xs. P x)"
  by (metis filter_id_conv filter_True length_filter_less less_irrefl_nat)

lemma check_proxy_thorough_returns:
  assumes "fst (check_proxy_thorough urlparse console get proxy) = Inr (is_working, p, res)"
  shows "p = proxy"
    and "is_working = (passed res = 3 \<and> failed res = 0)"
    and "snd (check_proxy_thorough urlparse console get proxy) =
           map (\<lambda>s. thorough_request proxy (fst s)) test_sites"
    and "tally get (snd (check_proxy_thorough urlparse console get proxy))
           \<lparr>passed = 0, failed = 0, errors = []\<rparr> res"
proof -
  obtain parsed where parsed: "urlparse proxy = Inr parsed"
    using assms by (cases "urlparse proxy") (simp_all add: check_proxy_thorough_rejected)
  let ?r = "thorough_loop get proxy test_sites \<lparr>passed = 0, failed = 0, errors = []\<rparr>"
  note cp = check_proxy_thorough_parsed
    [where urlparse = urlparse and proxy = proxy and console = console and get = get, OF parsed]
  from assms have r: "fst ?r = Inr res" and w: "is_working = (passed res = 3 \<and> failed res = 0)"
    and p: "p = proxy"
    by (auto simp: cp(2) split: sum.splits option.splits)
  show "p = proxy" by (rule p)
  show "is_working = (passed res = 3 \<and> failed res = 0)" by (rule w)
  show "snd (check_proxy_thorough urlparse console get proxy) =
           map (\<lambda>s. thorough_request proxy (fst s)) test_sites"
    using thorough_loop_returns [OF r] by (simp add: cp(1))
  show "tally get (snd (check_proxy_thorough urlparse console get proxy))
           \<lparr>passed = 0, failed = 0, errors = []\<rparr> res"
    unfolding cp(1) by (rule conjunct2 [OF thorough_loop_returns [OF r]])
qed

text \<open>
  Once a request is issued and every site is answered, by a response or by an exception
  that is an instance of \<open>Exception\<close>, the loop ends with every site counted once, and
  the function returns the classification unless a \<open>print\<close> of the result lines
  raises.
\<close>

lemma check_proxy_thorough_total:
  assumes issued: "snd (check_proxy_thorough urlparse console get proxy) \<noteq> []"
    and ans: "\<forall>s\<in>set test_sites. answered (get (thorough_request proxy (fst s)))"
  shows "\<exists>res.
     snd (check_proxy_thorough urlparse console get proxy) =
       map (\<lambda>s. thorough_request proxy (fst s)) test_sites \<and>
     passed res =
       length (filter (\<lambda>s. returns_200 (get (thorough_request proxy (fst s)))) test_sites) \<and>
     failed res =
       length (filter (\<lambda>s. \<not> returns_200 (get (thorough_request proxy (fst s)))) test_sites) \<and>
     length (errors res) = failed res \<and>
     passed res + failed res = 3 \<and>
     fst (check_proxy_thorough urlparse console get proxy) =
       (case print_all console (result_lines proxy (passed res = 3 \<and> failed res = 0) res) of
          Some e \<Rightarrow> Inl e
        | None \<Rightarrow> Inr (passed res = 3 \<and> failed res = 0, proxy, res))"
proof -
  obtain parsed where parsed: "urlparse proxy = Inr parsed"
    using issued check_proxy_thorough_issued by blast
  let ?r = "thorough_loop get proxy test_sites \<lparr>passed = 0, failed = 0, errors = []\<rparr>"
  let ?sites = "map (\<lambda>s. thorough_request proxy (fst s)) test_sites"
  note cp = check_proxy_thorough_parsed
    [where urlparse = urlparse and proxy = proxy and console = console and get = get, OF parsed]
  have "\<exists>res. fst ?r = Inr res"
  proof (cases "fst ?r")
    case (Inl e)
    then obtain rq where rq: "rq \<in> set (snd ?r)" "get rq = Raises e" "\<not> isinstance e Exception"
      using thorough_loop_raises by blast
    obtain k where "snd ?r = map (\<lambda>s. thorough_request proxy (fst s)) (take k test_sites)"
      using thorough_loop_trace by blast
    with rq(1) obtain s where "s \<in> set test_sites" "rq = thorough_request proxy (fst s)"
      using set_take_subset [of k test_sites] by auto
    with ans rq(2,3) show ?thesis by (auto simp: answered_def)
  next
    case (Inr res)
    then show ?thesis by blast
  qed
  then obtain res where res: "fst ?r = Inr res" by blast
  have tr: "snd ?r = ?sites" by (rule conjunct1 [OF thorough_loop_returns [OF res]])
  have t: "tally get ?sites \<lparr>passed = 0, failed = 0, errors = []\<rparr> res"
    using conjunct2 [OF thorough_loop_returns [OF res]] by (simp only: tr)
  have p: "passed res =
       length (filter (\<lambda>s. returns_200 (get (thorough_request proxy (fst s)))) test_sites)"
    using t by (simp add: tally_def filter_map comp_def)
  have f: "failed res =
       length (filter (\<lambda>s. \<not> returns_200 (get (thorough_request proxy (fst s)))) test_sites)"
    using t by (simp add: tally_def filter_map comp_def)
  have e: "length (errors res) = failed res"
    using t by (simp add: tally_def)
  have "length test_sites = 3" by (simp add: test_sites_def)
  then have sum: "passed res + failed res = 3"
    using sum_length_filter_compl
      [of "\<lambda>s. returns_200 (get (thorough_request proxy (fst s)))" test_sites]
    by (simp only: p f)
  have r: "fst (check_proxy_thorough urlparse console get proxy) =
       (case print_all console (result_lines proxy (passed res = 3 \<and> failed res = 0) res) of
          Some e \<Rightarrow> Inl e
        | None \<Rightarrow> Inr (passed res = 3 \<and> failed res = 0, proxy, res))"
    by (simp add: cp(2) res)
  have s: "snd (check_proxy_thorough urlparse console get proxy) = ?sites"
    by (simp only: cp(1) tr)
  from s p f e sum r show ?thesis by blast
qed

lemma check_proxy_thorough_all_200:
  assumes issued: "snd (check_proxy_thorough urlparse console get proxy) \<noteq> []"
    and ok: "\<forall>rq\<in>set (snd (check_proxy_thorough urlparse console get proxy)).
               returns_200 (get rq)"
    and line: "console (Marked Check_mark ('' WORKING: '' @ proxy)) = None"
  shows "\<exists>res. fst (check_proxy_thorough urlparse console get proxy) = Inr (True, proxy, res)"
proof -
  obtain parsed where parsed: "urlparse proxy = Inr parsed"
    using issued check_proxy_thorough_issued by blast
  let ?r = "thorough_loop get proxy test_sites \<lparr>passed = 0, failed = 0, errors = []\<rparr>"
  note cp = check_proxy_thorough_parsed
    [where urlparse = urlparse and proxy = proxy and console = console and get = get, OF parsed]
  have tr: "snd (check_proxy_thorough urlparse console get proxy) = snd ?r"
    by (rule cp(1))
  have "\<exists>res. fst ?r = Inr res"
  proof (cases "fst ?r")
    case (Inl e)
    then obtain rq where "rq \<in> set (snd ?r)" "get rq = Raises e"
      using thorough_loop_raises by blast
    with ok tr show ?thesis by (auto simp: returns_200_def)
  next
    case (Inr res)
    then show ?thesis by blast
  qed
  then obtain res where res: "fst ?r = Inr res" by blast
  have len: "length (snd ?r) = 3"
    using thorough_loop_returns [OF res] by (simp add: test_sites_def)
  have t: "tally get (snd ?r) \<lparr>passed = 0, failed = 0, errors = []\<rparr> res"
    by (rule conjunct2 [OF thorough_loop_returns [OF res]])
  have all: "filter (\<lambda>rq. returns_200 (get rq)) (snd ?r) = snd ?r"
    using ok tr by (simp add: filter_id_conv)
  have none: "filter (\<lambda>rq. \<not> returns_200 (get rq)) (snd ?r) = []"
    using ok tr by (simp add: filter_empty_conv)
  have "passed res = 3" "failed res = 0"
    using t len by (simp_all add: tally_def all none)
  then show ?thesis
    using line by (simp add: cp(2) res result_lines_def)
qed

lemma check_proxy_thorough_all_raise:
  assumes issued: "snd (check_proxy_thorough urlparse console get proxy) \<noteq> []"
    and bad: "\<forall>rq\<in>set (snd (check_proxy_thorough urlparse console get proxy)).
                raises_exception (get rq)"
    and lines: "\<forall>line. console line = None"
  shows "\<exists>res. fst (check_proxy_thorough urlparse console get proxy) = Inr (False, proxy, res) \<and>
               passed res = 0 \<and> failed res = 3"
proof -
  obtain parsed where parsed: "urlparse proxy = Inr parsed"
    using issued check_proxy_thorough_issued by blast
  let ?r = "thorough_loop get proxy test_sites \<lparr>passed = 0, failed = 0, errors = []\<rparr>"
  note cp = check_proxy_thorough_parsed
    [where urlparse = urlparse and proxy = proxy and console = console and get = get, OF parsed]
  have tr: "snd (check_proxy_thorough urlparse console get proxy) = snd ?r"
    by (rule cp(1))
  have "\<exists>res. fst ?r = Inr res"
  proof (cases "fst ?r")
    case (Inl e)
    then obtain rq where "rq \<in> set (snd ?r)" "get rq = Raises e" "\<not> isinstance e Exception"
      using thorough_loop_raises by blast
    with bad tr show ?thesis by (auto simp: raises_exception_def)
  next
    case (Inr res)
    then show ?thesis by blast
  qed
  then obtain res where res: "fst ?r = Inr res" by blast
  have len: "length (snd ?r) = 3"
    using thorough_loop_returns [OF res] by (simp add: test_sites_def)
  have t: "tally get (snd ?r) \<lparr>passed = 0, failed = 0, errors = []\<rparr> res"
    by (rule conjunct2 [OF thorough_loop_returns [OF res]])
  have no200: "\<forall>rq\<in>set (snd ?r). \<not> returns_200 (get rq)"
    using bad tr by (auto simp: raises_exception_def returns_200_def split: outcome.splits)
  have all: "filter (\<lambda>rq. \<not> returns_200 (get rq)) (snd ?r) = snd ?r"
    using no200 by (simp add: filter_id_conv)
  have none: "filter (\<lambda>rq. returns_200 (get rq)) (snd ?r) = []"
    using no200 by (simp add: filter_empty_conv)
  have pr: "print_all console ls = None" for ls
    using lines by (induction ls) simp_all
  have "passed res = 0" "failed res = 3"
    using t len by (simp_all add: tally_def all none)
  then show ?thesis
    by (simp add: cp(2) res pr)
qed

subsection \<open>The requests of one proxy\<close>

text \<open>
  \<open>check_proxy_simple\<close> issues between one and four requests and
  \<open>check_proxy_thorough\<close> at most three, and at least one when \<open>urlparse\<close> accepts
  the address. Every request goes through the proxy to a URL of the hardcoded list, and no
  URL is requested twice.
\<close>

lemma requests_bounded:
  "1 \<le> length (snd (check_proxy_simple console get proxy)) \<and>
   length (snd (check_proxy_simple console get proxy)) \<le> 4 \<and>
   set (map url (snd (check_proxy_simple console get proxy))) \<subseteq> set test_urls \<and>
   distinct (map url (snd (check_proxy_simple console get proxy))) \<and>
   (\<forall>rq\<in>set (snd (check_proxy_simple console get proxy)). proxies rq = proxies_dict proxy) \<and>
   length (snd (check_proxy_thorough urlparse console get proxy)) \<le> 3 \<and>
   set (map url (snd (check_proxy_thorough urlparse console get proxy))) \<subseteq> set (map fst test_sites) \<and>
   distinct (map url (snd (check_proxy_thorough urlparse console get proxy))) \<and>
   (\<forall>rq\<in>set (snd (check_proxy_thorough urlparse console get proxy)). proxies rq = proxies_dict proxy) \<and>
   (urlparse proxy = Inr parsed \<longrightarrow>
      1 \<le> length (snd (check_proxy_thorough urlparse console get proxy)))"
proof -
  obtain k where k: "1 \<le> k" "k \<le> 4"
    "snd (check_proxy_simple console get proxy) = map (simple_request proxy) (take k test_urls)"
    using check_proxy_simple_requests by blast
  have len4: "length test_urls = 4" by (simp add: test_urls_def)
  have s1: "length (snd (check_proxy_simple console get proxy)) = k"
    using k len4 by simp
  have s2: "map url (snd (check_proxy_simple console get proxy)) = take k test_urls"
    by (simp add: k(3) comp_def)
  have s3: "set (take k test_urls) \<subseteq> set test_urls" by (rule set_take_subset)
  have s4: "distinct (take k test_urls)" using distinct_test_urls by (rule distinct_take)
  have s5: "\<forall>rq\<in>set (snd (check_proxy_simple console get proxy)). proxies rq = proxies_dict proxy"
    by (auto simp: k(3) simple_request_def)
  obtain j where j: "j \<le> 3"
    "snd (check_proxy_thorough urlparse console get proxy) =
       map (\<lambda>s. thorough_request proxy (fst s)) (take j test_sites)"
    "(\<exists>parsed. urlparse proxy = Inr parsed) \<longrightarrow> 1 \<le> j"
    using check_proxy_thorough_trace by blast
  have len3: "length test_sites = 3" by (simp add: test_sites_def)
  have t1: "length (snd (check_proxy_thorough urlparse console get proxy)) = j"
    using j len3 by simp
  have t2: "map url (snd (check_proxy_thorough urlparse console get proxy)) = take j (map fst test_sites)"
    by (simp add: j(2) comp_def take_map)
  have t3: "set (take j (map fst test_sites)) \<subseteq> set (map fst test_sites)"
    by (rule set_take_subset)
  have t4: "distinct (take j (map fst test_sites))"
    using distinct_test_sites by (rule distinct_take)
  have t5: "\<forall>rq\<in>set (snd (check_proxy_thorough urlparse console get proxy)). proxies rq = proxies_dict proxy"
    by (auto simp: j(2) thorough_request_def)
  have t6: "urlparse proxy = Inr parsed \<longrightarrow> 1 \<le> j" using j(3) by blast
  show ?thesis
    unfolding s1 s2 t1 t2 using k(1,2) s3 s4 s5 j(1) t3 t4 t5 t6 by blast
qed

subsection \<open>The loader and the lines of a text\<close>

lemma isspace_LF [simp]: "isspace LF"
  by (simp add: isspace_def whitespace_def)

lemma isspace_CR [simp]: "isspace CR"
  by (simp add: isspace_def whitespace_def)

lemma strip_eq_Nil: "strip l = [] \<longleftrightarrow> blank l"
proof -
  have "dropWhile isspace (rev l) = [] \<longleftrightarrow> blank l"
    by (simp add: blank_def)
  moreover have "strip l = [] \<longleftrightarrow> dropWhile isspace (rev l) = []"
  proof (cases "dropWhile isspace (rev l)")
    case Nil
    show ?thesis unfolding strip_def lstrip_def rstrip_def Nil by simp
  next
    case (Cons c cs)
    then have "\<not> isspace c" using hd_dropWhile [of isspace "rev l"]
      by (metis list.distinct(1) list.sel(1))
    then have "dropWhile isspace (rev cs @ [c]) \<noteq> []"
      by (simp add: dropWhile_append)
    then show ?thesis unfolding strip_def lstrip_def rstrip_def Cons by simp
  qed
  ultimately show ?thesis by simp
qed

lemma strip_append_LF [simp]: "strip (l @ [LF]) = strip l"
  by (simp add: strip_def rstrip_def)

lemma blank_append_LF [simp]: "blank (l @ [LF]) = blank l"
  by (simp add: blank_def)

lemma set_strip: "set (strip l) \<subseteq> set l"
proof -
  have "set (strip l) \<subseteq> set (rstrip l)"
    unfolding strip_def lstrip_def by (rule set_dropWhileD [THEN subsetI])
  also have "set (rstrip l) \<subseteq> set l"
    unfolding rstrip_def using set_dropWhileD [of _ isspace "rev l"] by auto
  finally show ?thesis .
qed

lemma split_lines_not_Nil [simp]: "split_lines t \<noteq> []"
  by (induction t) (auto split: list.splits)

lemma kept_lines_readlines_from:
  "[strip line. line \<leftarrow> readlines_from acc t, strip line \<noteq> []] =
   map strip (filter (\<lambda>l. \<not> blank l)
     (case split_lines t of [] \<Rightarrow> [] | l # ls \<Rightarrow> (acc @ l) # ls))"
proof (induction t arbitrary: acc)
  case Nil
  then show ?case by (auto simp: strip_eq_Nil blank_def)
next
  case (Cons c cs)
  show ?case
  proof (cases "c = LF")
    case True
    have "split_lines cs = (case split_lines cs of [] \<Rightarrow> [] | l # ls \<Rightarrow> ([] @ l) # ls)"
      by (simp split: list.splits)
    with Cons.IH [of "[]"] True show ?thesis
      by (simp add: strip_eq_Nil)
  next
    case False
    obtain l ls where s: "split_lines cs = l # ls"
      by (cases "split_lines cs") simp_all
    with Cons.IH [of "acc @ [c]"] False show ?thesis by simp
  qed
qed

lemma load_proxies_eq: "load_proxies content = non_blank_lines_stripped content"
  unfolding load_proxies_def non_blank_lines_stripped_def readlines_def
  using kept_lines_readlines_from [of "[]" "universal_newlines content"]
  by (simp split: list.splits)

subsection \<open>What the loader delivers, and reading back what \<open>main\<close> writes\<close>

lemma last_dropWhile_same: "dropWhile P xs \<noteq> [] \<Longrightarrow> last (dropWhile P xs) = last xs"
  by (induction xs) (auto split: if_splits)

lemma strip_ends:
  assumes "strip l \<noteq> []"
  shows "\<not> isspace (hd (strip l))" "\<not> isspace (last (strip l))"
proof -
  let ?r = "rstrip l"
  show "\<not> isspace (hd (strip l))"
    using assms hd_dropWhile [of isspace ?r] by (simp add: strip_def lstrip_def)
  have r: "?r \<noteq> []" using assms by (auto simp: strip_def lstrip_def)
  then have d: "dropWhile isspace (rev l) \<noteq> []" by (simp add: rstrip_def)
  have "last (strip l) = last ?r"
    using assms by (simp add: strip_def lstrip_def last_dropWhile_same)
  also have "\<dots> = hd (dropWhile isspace (rev l))"
    using d by (simp add: rstrip_def last_rev)
  finally show "\<not> isspace (last (strip l))"
    using hd_dropWhile [OF d] by simp
qed

lemma strip_clean_id: "p \<noteq> [] \<Longrightarrow> \<not> isspace (hd p) \<Longrightarrow> \<not> isspace (last p) \<Longrightarrow> strip p = p"
proof -
  assume p: "p \<noteq> []" "\<not> isspace (hd p)" "\<not> isspace (last p)"
  then have "dropWhile isspace (rev p) = rev p"
    by (cases p rule: rev_cases) simp_all
  then have "rstrip p = p" by (simp add: rstrip_def)
  moreover have "dropWhile isspace p = p" using p by (cases p) auto
  ultimately show ?thesis by (simp add: strip_def lstrip_def)
qed

lemma CR_universal_newlines: "CR \<notin> set (universal_newlines t)"
  by (induction t rule: universal_newlines.induct) auto

lemma universal_newlines_id: "CR \<notin> set t \<Longrightarrow> universal_newlines t = t"
  by (induction t rule: universal_newlines.induct) auto

lemma set_split_lines: "l \<in> set (split_lines t) \<Longrightarrow> set l \<subseteq> set t - {LF}"
proof (induction t arbitrary: l)
  case Nil
  then show ?case by simp
next
  case (Cons c cs)
  obtain k ks where s: "split_lines cs = k # ks" by (cases "split_lines cs") simp_all
  have "set k \<subseteq> set cs - {LF}" "\<And>m. m \<in> set ks \<Longrightarrow> set m \<subseteq> set cs - {LF}"
    using Cons.IH s by simp_all
  with Cons.prems s show ?case
    by (cases "c = LF") (auto split: if_splits)
qed

lemma load_proxies_clean: "p \<in> set (load_proxies content) \<Longrightarrow> clean p"
proof -
  assume "p \<in> set (load_proxies content)"
  then obtain l where l: "l \<in> set (split_lines (universal_newlines content))"
    "\<not> blank l" "p = strip l"
    by (auto simp: load_proxies_eq non_blank_lines_stripped_def)
  from l(2) have ne: "strip l \<noteq> []" by (simp add: strip_eq_Nil)
  have "set l \<subseteq> set (universal_newlines content) - {LF}"
    using l(1) by (rule set_split_lines)
  then have "LF \<notin> set l" "CR \<notin> set l" using CR_universal_newlines by auto
  then have "LF \<notin> set p" "CR \<notin> set p" using set_strip [of l] l(3) by auto
  with ne strip_ends [OF ne] show ?thesis by (simp add: clean_def l(3))
qed

lemma split_lines_line: "LF \<notin> set p \<Longrightarrow> split_lines (p @ LF # t) = p # split_lines t"
  by (induction p) auto

lemma split_lines_write_lines:
  "\<forall>p\<in>set ps. LF \<notin> set p \<Longrightarrow> split_lines (write_lines ps) = ps @ [[]]"
  by (induction ps) (simp_all add: write_lines_def lines_written_def split_lines_line)

lemma blank_Nil [simp]: "blank []"
  by (simp add: blank_def)

lemma clean_not_blank: "clean p \<Longrightarrow> \<not> blank p"
  by (cases p) (auto simp: clean_def blank_def)

lemma load_proxies_write_lines:
  assumes "\<forall>p\<in>set ps. clean p"
  shows "load_proxies (write_lines ps) = ps"
proof -
  have "CR \<notin> set (write_lines ps)"
    using assms by (auto simp: write_lines_def lines_written_def clean_def)
  then have u: "universal_newlines (write_lines ps) = write_lines ps"
    by (rule universal_newlines_id)
  have s: "split_lines (write_lines ps) = ps @ [[]]"
    using assms by (intro split_lines_write_lines) (simp add: clean_def)
  have f: "filter (\<lambda>l. \<not> blank l) ps = ps"
    using assms clean_not_blank by (simp add: filter_id_conv)
  have m: "map strip ps = ps"
    using assms by (simp add: map_idI strip_clean_id clean_def)
  show ?thesis
    by (simp add: load_proxies_eq non_blank_lines_stripped_def u s f m)
qed

subsection \<open>Collecting the results\<close>

lemma mset_as_completed: "mset (as_completed finish futures) = mset futures"
proof -
  have "map snd (enumerate 0 futures) = futures" by (rule map_snd_enumerate)
  then have "image_mset snd (mset (enumerate 0 futures)) = mset futures"
    by (metis mset_map)
  then show ?thesis by (simp add: as_completed_def)
qed

lemma collect_simple_returns:
  "\<forall>e. Inl e \<notin> set rs \<Longrightarrow> collect_simple rs working = Inr (working @ passing rs)"
proof (induction rs working rule: collect_simple.induct)
  case (1 working)
  then show ?case by (simp add: passing_def)
next
  case (2 e rest working)
  then show ?case by auto
next
  case (3 is_working proxy rest working)
  then show ?case by (simp add: passing_def is_pass_def)
qed

lemma collect_simple_raises:
  "collect_simple rs working = Inr w \<Longrightarrow> \<forall>e. Inl e \<notin> set rs"
proof (induction rs working rule: collect_simple.induct)
  case (1 working)
  then show ?case by simp
next
  case (2 e rest working)
  then show ?case by simp
next
  case (3 is_working proxy rest working)
  then show ?case by auto
qed

lemma collect_simple_Inr_iff:
  "collect_simple rs [] = Inr w \<longleftrightarrow> (\<forall>e. Inl e \<notin> set rs) \<and> w = passing rs"
  using collect_simple_raises [of rs "[]" w] collect_simple_returns [of rs "[]"] by auto

lemma collect_thorough_simple:
  "collect_thorough rs working = collect_simple (map without_results rs) working"
  by (induction rs working rule: collect_thorough.induct) (simp_all add: without_results_def)

lemma mset_passing: "mset rs' = mset rs \<Longrightarrow> mset (passing rs') = mset (passing rs)"
  unfolding passing_def by (metis mset_filter mset_map)

lemma collect_simple_permuted:
  assumes "mset rs' = mset rs" and "collect_simple rs [] = Inr w"
  shows "\<exists>w'. collect_simple rs' [] = Inr w' \<and> mset w' = mset w"
proof -
  from assms(2) have a: "\<forall>e. Inl e \<notin> set rs" "w = passing rs"
    by (simp_all add: collect_simple_Inr_iff)
  have "set rs' = set rs" using assms(1) by (rule mset_eq_setD)
  with a(1) have "collect_simple rs' [] = Inr (passing rs')"
    by (simp add: collect_simple_Inr_iff)
  moreover have "mset (passing rs') = mset w"
    using mset_passing [OF assms(1)] a(2) by simp
  ultimately show ?thesis by blast
qed

lemma passing_futures:
  assumes "\<And>i p b q. F (i, p) = Inr (b, q) \<Longrightarrow> q = p"
  shows "passing (map F en) = [proxy. (i, proxy) \<leftarrow> en, is_pass (F (i, proxy))]"
proof (induction en)
  case Nil
  then show ?case by (simp add: passing_def)
next
  case (Cons a en)
  obtain i p where a: "a = (i, p)" by (cases a)
  show ?case
  proof (cases "F (i, p)")
    case (Inl e)
    with Cons show ?thesis by (simp add: a passing_def is_pass_def)
  next
    case (Inr v)
    obtain b q where v: "v = (b, q)" by (cases v)
    with Inr assms have "q = p" by blast
    with Cons Inr v show ?thesis by (simp add: a passing_def is_pass_def)
  qed
qed

lemma comprehension_filter:
  "[proxy. (i, proxy) \<leftarrow> en, Q i proxy] = map snd (filter (\<lambda>(i, proxy). Q i proxy) en)"
  by (induction en) auto

lemma distinct_comprehension:
  "distinct ps \<Longrightarrow> distinct [proxy. (i, proxy) \<leftarrow> enumerate 0 ps, Q i proxy]"
proof -
  assume "distinct ps"
  then have "distinct (map snd (enumerate 0 ps))" by (simp only: map_snd_enumerate)
  then show ?thesis
    unfolding comprehension_filter by (rule distinct_map_filter)
qed

lemma success_rate_ok: "0 < n \<Longrightarrow> \<exists>rate. success_rate w n = Inr rate"
  by (simp add: success_rate_def)

lemma clean_passing:
  "mset working = mset [proxy. (i, proxy) \<leftarrow> enumerate 0 (load_proxies content), Q i proxy]
   \<Longrightarrow> \<forall>p\<in>set working. clean p"
proof -
  assume a: "mset working = mset [proxy. (i, proxy) \<leftarrow> enumerate 0 (load_proxies content), Q i proxy]"
  have "set [proxy. (i, proxy) \<leftarrow> enumerate 0 (load_proxies content), Q i proxy]
          \<subseteq> set (map snd (enumerate 0 (load_proxies content)))"
    unfolding comprehension_filter by (auto simp: in_set_enumerate_eq)
  also have "\<dots> = set (load_proxies content)" by (simp only: map_snd_enumerate)
  finally have "set working \<subseteq> set (load_proxies content)"
    using mset_eq_setD [OF a] by simp
  then show ?thesis using load_proxies_clean by blast
qed

text \<open>What a finished run of \<open>main\<close> leaves.\<close>

lemma main_simple_Finished:
  assumes f: "files ''proxies.txt'' = Some content"
    and m: "main_simple files console net finish = Finished working files'"
  shows "mset working =
           mset [proxy. (i, proxy) \<leftarrow> enumerate 0 (load_proxies content),
                   simple_passes console (net i) proxy]"
    and "files' = (if working \<noteq> [] then files(''working_proxies.txt'' \<mapsto> write_lines working)
                   else files)"
proof -
  let ?F = "\<lambda>(i, proxy). fst (check_proxy_simple console (net i) proxy)"
  let ?futures = "map ?F (enumerate 0 (load_proxies content))"
  from m f have c: "collect_simple (as_completed finish ?futures) [] = Inr working"
    and w: "files' = (if working \<noteq> [] then files(''working_proxies.txt'' \<mapsto> write_lines working)
                   else files)"
    by (auto simp: main_simple_def Let_def split: sum.splits if_splits)
  show "files' = (if working \<noteq> [] then files(''working_proxies.txt'' \<mapsto> write_lines working)
                   else files)" by (rule w)
  from c have "working = passing (as_completed finish ?futures)"
    by (simp add: collect_simple_Inr_iff)
  then have "mset working = mset (passing ?futures)"
    using mset_passing [OF mset_as_completed] by simp
  also have "passing ?futures =
      [proxy. (i, proxy) \<leftarrow> enumerate 0 (load_proxies content), is_pass (?F (i, proxy))]"
    by (rule passing_futures) (auto simp: check_proxy_simple_def dest: simple_loop_proxy)
  finally show "mset working =
           mset [proxy. (i, proxy) \<leftarrow> enumerate 0 (load_proxies content),
                   simple_passes console (net i) proxy]"
    by (simp add: simple_passes_def)
qed

lemma main_thorough_Finished:
  assumes f: "files ''working_proxies.txt'' = Some content"
    and m: "main_thorough files urlparse console net finish = Finished working files'"
  shows "mset working =
           mset [proxy. (i, proxy) \<leftarrow> enumerate 0 (load_proxies content),
                   thorough_passes urlparse console (net i) proxy]"
    and "files' = (if working \<noteq> []
                   then files(''verified_working_proxies.txt'' \<mapsto> write_lines working)
                   else files)"
proof -
  let ?F = "\<lambda>(i, proxy). without_results (fst (check_proxy_thorough urlparse console (net i) proxy))"
  let ?G = "\<lambda>(i, proxy). fst (check_proxy_thorough urlparse console (net i) proxy)"
  let ?en = "enumerate 0 (load_proxies content)"
  have FG: "map without_results (map ?G ?en) = map ?F ?en"
    by (simp add: case_prod_unfold)
  from m f have c: "collect_thorough (as_completed finish (map ?G ?en)) [] = Inr working"
    and w: "files' = (if working \<noteq> []
                   then files(''verified_working_proxies.txt'' \<mapsto> write_lines working)
                   else files)"
    by (auto simp: main_thorough_def Let_def split: sum.splits if_splits)
  show "files' = (if working \<noteq> []
                   then files(''verified_working_proxies.txt'' \<mapsto> write_lines working)
                   else files)" by (rule w)
  from c have w1: "working = passing (map without_results (as_completed finish (map ?G ?en)))"
    by (simp add: collect_thorough_simple collect_simple_Inr_iff)
  have "mset (map without_results (as_completed finish (map ?G ?en))) =
        mset (map without_results (map ?G ?en))"
    by (simp only: mset_map mset_as_completed)
  also note FG
  finally have e: "mset (map without_results (as_completed finish (map ?G ?en))) =
                   mset (map ?F ?en)" .
  have "mset working = mset (passing (map ?F ?en))"
    unfolding w1 by (rule mset_passing [OF e])
  also have "passing (map ?F ?en) = [proxy. (i, proxy) \<leftarrow> ?en, is_pass (?F (i, proxy))]"
  proof (rule passing_futures)
    fix i p b q
    assume "?F (i, p) = Inr (b, q)"
    then obtain res where "fst (check_proxy_thorough urlparse console (net i) p) = Inr (b, q, res)"
      by (auto simp: without_results_def split: sum.splits)
    then show "q = p" by (rule check_proxy_thorough_returns(1))
  qed
  finally show "mset working =
           mset [proxy. (i, proxy) \<leftarrow> enumerate 0 (load_proxies content),
                   thorough_passes urlparse console (net i) proxy]"
    by (simp add: thorough_passes_def)
qed

lemma as_completed_Nil [simp]: "as_completed finish [] = []"
  by (simp add: as_completed_def)

lemma main_simple_cases:
  assumes "files ''proxies.txt'' = Some content"
  shows "main_simple files console net finish =
    (case collect_simple (as_completed finish
            (map (\<lambda>(i, proxy). fst (check_proxy_simple console (net i) proxy))
               (enumerate 0 (load_proxies content)))) [] of
       Inl e \<Rightarrow> Crashed e
     | Inr working \<Rightarrow>
         if load_proxies content = [] then Crashed ZeroDivisionError
         else if working \<noteq> []
         then Finished working (files(''working_proxies.txt'' \<mapsto> write_lines working))
         else Finished working files)"
  using assms by (simp add: main_simple_def Let_def success_rate_def split: sum.splits)

lemma main_thorough_cases:
  assumes "files ''working_proxies.txt'' = Some content"
  shows "main_thorough files urlparse console net finish =
    (case collect_thorough (as_completed finish
            (map (\<lambda>(i, proxy). fst (check_proxy_thorough urlparse console (net i) proxy))
               (enumerate 0 (load_proxies content)))) [] of
       Inl e \<Rightarrow> Crashed e
     | Inr working \<Rightarrow>
         if load_proxies content = [] then Crashed ZeroDivisionError
         else if working \<noteq> []
         then Finished working (files(''verified_working_proxies.txt'' \<mapsto> write_lines working))
         else Finished working files)"
  using assms by (simp add: main_thorough_def Let_def success_rate_def split: sum.splits)

lemma collect_simple_not_ZeroDivisionError: "collect_simple rs w \<noteq> Inl ZeroDivisionError"
  by (induction rs w rule: collect_simple.induct) simp_all

lemma collect_thorough_not_ZeroDivisionError: "collect_thorough rs w \<noteq> Inl ZeroDivisionError"
  by (simp add: collect_thorough_simple collect_simple_not_ZeroDivisionError)

lemma non_blank_line_iff:
  "(\<exists>l\<in>set (split_lines (universal_newlines content)). \<not> blank l) \<longleftrightarrow>
   load_proxies content \<noteq> []"
  by (auto simp: load_proxies_eq non_blank_lines_stripped_def filter_empty_conv)

lemma written_and_read_back:
  assumes "\<forall>p\<in>set working. clean p"
  shows "split_lines (write_lines working) = working @ [[]]"
    and "load_proxies (write_lines working) = working"
  using assms
  by (simp_all add: split_lines_write_lines load_proxies_write_lines clean_def)

lemma finished_run:
  fixes Q :: "nat \<Rightarrow> string \<Rightarrow> bool"
  assumes m: "mset w = mset [proxy. (i, proxy) \<leftarrow> enumerate 0 (load_proxies c), Q i proxy]"
    and f: "f = (if w \<noteq> [] then files(name \<mapsto> write_lines w) else files)"
  shows "mset w = mset [proxy. (i, proxy) \<leftarrow> enumerate 0 (load_proxies c), Q i proxy] \<and>
      (distinct (load_proxies c) \<longrightarrow> distinct w) \<and>
      (w \<noteq> [] \<longrightarrow>
         f = files(name \<mapsto> write_lines w) \<and>
         split_lines (write_lines w) = w @ [[]] \<and>
         load_proxies (write_lines w) = w)"
proof (intro conjI impI)
  show "mset w = mset [proxy. (i, proxy) \<leftarrow> enumerate 0 (load_proxies c), Q i proxy]"
    by (rule m)
  show "distinct w" if "distinct (load_proxies c)"
  proof -
    have "distinct [proxy. (i, proxy) \<leftarrow> enumerate 0 (load_proxies c), Q i proxy]"
      using that by (rule distinct_comprehension)
    then show ?thesis using mset_eq_imp_distinct_iff [OF m] by simp
  qed
  have cl: "\<forall>p\<in>set w. clean p" using m by (rule clean_passing)
  show "f = files(name \<mapsto> write_lines w)" if "w \<noteq> []"
    using f that by simp
  show "split_lines (write_lines w) = w @ [[]]"
    by (rule written_and_read_back(1) [OF cl])
  show "load_proxies (write_lines w) = w"
    by (rule written_and_read_back(2) [OF cl])
qed

lemma collect_simple_any_order:
  assumes "mset rs' = mset rs" and "collect_simple rs [] = Inr w"
  shows "\<exists>w'. collect_simple rs' [] = Inr w' \<and> set w' = set w \<and>
             set (lines_written w') = set (lines_written w)"
proof -
  obtain w' where w': "collect_simple rs' [] = Inr w'" "mset w' = mset w"
    using collect_simple_permuted [OF assms] by blast
  from w'(2) have s: "set w' = set w" by (rule mset_eq_setD)
  then have "set (lines_written w') = set (lines_written w)"
    by (simp add: lines_written_def)
  with w'(1) s show ?thesis by blast
qed

lemma collect_thorough_any_order:
  assumes "mset ts' = mset ts" and "collect_thorough ts [] = Inr v"
  shows "\<exists>v'. collect_thorough ts' [] = Inr v' \<and> set v' = set v \<and>
             set (lines_written v') = set (lines_written v)"
proof -
  have "mset (map without_results ts') = mset (map without_results ts)"
    using assms(1) by simp
  moreover have "collect_simple (map without_results ts) [] = Inr v"
    using assms(2) by (simp only: collect_thorough_simple)
  ultimately show ?thesis
    unfolding collect_thorough_simple by (rule collect_simple_any_order)
qed

lemma main_simple_any_order:
  assumes m: "main_simple files console net finish = Finished w1 files1"
  shows "\<exists>w2 files2. main_simple files console net finish' = Finished w2 files2 \<and> set w2 = set w1 \<and>
                    set (lines_written w2) = set (lines_written w1)"
proof -
  obtain content where f: "files ''proxies.txt'' = Some content"
    using m by (cases "files ''proxies.txt''") (simp_all add: main_simple_def)
  let ?futures = "map (\<lambda>(i, proxy). fst (check_proxy_simple console (net i) proxy))
             (enumerate 0 (load_proxies content))"
  note cases = main_simple_cases [where files = files, OF f]
  have ne: "load_proxies content \<noteq> []"
    using m unfolding cases [of console net finish] by (auto split: sum.splits if_splits)
  have c: "collect_simple (as_completed finish ?futures) [] = Inr w1"
    using m unfolding cases [of console net finish] by (auto split: sum.splits if_splits)
  have "mset (as_completed finish' ?futures) = mset (as_completed finish ?futures)"
    by (simp only: mset_as_completed)
  from collect_simple_any_order [OF this c] obtain w2 where
    w2: "collect_simple (as_completed finish' ?futures) [] = Inr w2" "set w2 = set w1"
      "set (lines_written w2) = set (lines_written w1)"
    by blast
  have "\<exists>files2. main_simple files console net finish' = Finished w2 files2"
    unfolding cases [of console net finish'] using ne w2(1) by simp
  with w2(2,3) show ?thesis by blast
qed

lemma main_thorough_any_order:
  assumes m: "main_thorough files urlparse console net finish = Finished v1 files3"
  shows "\<exists>v2 files4. main_thorough files urlparse console net finish' = Finished v2 files4 \<and>
                    set v2 = set v1 \<and> set (lines_written v2) = set (lines_written v1)"
proof -
  obtain content where f: "files ''working_proxies.txt'' = Some content"
    using m by (cases "files ''working_proxies.txt''") (simp_all add: main_thorough_def)
  let ?futures = "map (\<lambda>(i, proxy). fst (check_proxy_thorough urlparse console (net i) proxy))
             (enumerate 0 (load_proxies content))"
  note cases = main_thorough_cases [where files = files, OF f]
  have ne: "load_proxies content \<noteq> []"
    using m unfolding cases [of urlparse console net finish] by (auto split: sum.splits if_splits)
  have c: "collect_thorough (as_completed finish ?futures) [] = Inr v1"
    using m unfolding cases [of urlparse console net finish] by (auto split: sum.splits if_splits)
  have "mset (as_completed finish' ?futures) = mset (as_completed finish ?futures)"
    by (simp only: mset_as_completed)
  from collect_thorough_any_order [OF this c] obtain v2 where
    v2: "collect_thorough (as_completed finish' ?futures) [] = Inr v2" "set v2 = set v1"
      "set (lines_written v2) = set (lines_written v1)"
    by blast
  have "\<exists>files4. main_thorough files urlparse console net finish' = Finished v2 files4"
    unfolding cases [of urlparse console net finish'] using ne v2(1) by simp
  with v2(2,3) show ?thesis by blast
qed

text \<open>
  The completion times lose nothing: every order in which the futures can complete, a
  permutation of their indices, is the order \<open>as_completed\<close> yields for some times.
\<close>

lemma position_in_order:
  assumes "distinct order" and "a < length order"
  shows "length (takeWhile (\<lambda>j. j \<noteq> order ! a) order) = a"
proof -
  have "takeWhile (\<lambda>j. j \<noteq> order ! a) order = take a order"
  proof (rule takeWhile_eq_take_P_nth)
    fix i
    assume "i < a" "i < length order"
    then show "order ! i \<noteq> order ! a"
      using assms by (simp add: nth_eq_iff_index_eq)
  next
    show "\<not> order ! a \<noteq> order ! a" by simp
  qed
  then show ?thesis using assms(2) by simp
qed

lemma filter_same_key:
  assumes "distinct zs" and "p \<in> set zs" and "inj_on k (set zs)"
  shows "filter (\<lambda>x. k p = k x) zs = [p]"
  using assms
proof (induction zs)
  case Nil
  then show ?case by simp
next
  case (Cons z zs)
  show ?case
  proof (cases "p = z")
    case True
    have "filter (\<lambda>x. k z = k x) zs = []"
      using Cons.prems(1,3) by (auto simp: filter_empty_conv inj_on_def)
    then show ?thesis using True by simp
  next
    case False
    then have "p \<in> set zs" using Cons.prems(2) by simp
    moreover have "k p \<noteq> k z"
      using Cons.prems(3) False \<open>p \<in> set zs\<close> by (auto simp: inj_on_def)
    moreover have "inj_on k (set zs)" using Cons.prems(3) by (simp add: inj_on_def)
    ultimately show ?thesis using Cons.IH Cons.prems(1) by simp
  qed
qed

lemma enumerate_nth: "enumerate 0 futures = map (\<lambda>i. (i, futures ! i)) [0..<length futures]"
  by (rule nth_equalityI) (simp_all add: nth_enumerate_eq)

lemma as_completed_any_order:
  assumes "mset order = mset [0..<length futures]"
  shows "\<exists>finish. as_completed finish futures = map (\<lambda>i. futures ! i) order"
proof -
  let ?n = "length futures"
  let ?g = "\<lambda>i. (i, futures ! i)"
  let ?pos = "\<lambda>i. length (takeWhile (\<lambda>j. j \<noteq> i) order)"
  let ?k = "\<lambda>(i, future). ?pos i"
  let ?xs = "enumerate 0 futures"
  let ?ys = "map ?g order"
  have d: "distinct order"
    using mset_eq_imp_distinct_iff [OF assms] by simp
  have len: "length order = ?n"
    using mset_eq_length [OF assms] by simp
  have xs: "?xs = map ?g [0..<?n]" by (rule enumerate_nth)
  have m: "mset ?ys = mset ?xs"
    unfolding xs using assms by (simp only: mset_map)
  have keys: "map ?k ?ys = [0..<length order]"
    by (rule nth_equalityI) (simp_all add: position_in_order [OF d])
  have s: "sorted (map ?k ?ys)" unfolding keys by simp
  have dy: "distinct ?ys" using d by (simp add: distinct_map inj_on_def)
  have dx: "distinct ?xs" unfolding xs by (simp add: distinct_map inj_on_def)
  have "distinct (map ?k ?ys)" unfolding keys by simp
  then have iy: "inj_on ?k (set ?ys)" by (simp only: distinct_map)
  have sets: "set ?xs = set ?ys" using m by (metis mset_eq_setD)
  have "sort_key ?k ?xs = ?ys"
  proof (rule properties_for_sort_key [OF m _ s])
    fix p
    assume p: "p \<in> set ?ys"
    have "filter (\<lambda>x. ?k p = ?k x) ?ys = [p]"
      using dy p iy by (rule filter_same_key)
    moreover have "filter (\<lambda>x. ?k p = ?k x) ?xs = [p]"
    proof (rule filter_same_key [OF dx])
      show "p \<in> set ?xs" using p by (simp only: sets)
      show "inj_on ?k (set ?xs)" using iy by (simp only: sets)
    qed
    ultimately show "filter (\<lambda>x. ?k p = ?k x) ?ys = filter (\<lambda>x. ?k p = ?k x) ?xs"
      by simp
  qed
  then have "as_completed ?pos futures = map (\<lambda>i. futures ! i) order"
    by (simp add: as_completed_def comp_def)
  then show ?thesis by blast
qed

subsection \<open>Sample runs\<close>

lemmas sample_defs =
  always_200_def always_ConnectTimeout_def always_ReadTimeout_def third_url_200_def
  third_url_refused_def wikipedia_503_def response_200_def response_503_def
  requests_ConnectTimeout_def requests_ReadTimeout_def ValueError_def
  returns_200_def connection_failure_def moves_on_def raises_exception_def isinstance_def
  utf8_console_def printable_def printed_for_def failure_line_def working_line_def
  answered_def

lemma urlparse_brackets_accepts: "urlparse_brackets ''10.0.0.1:8080'' =
    Inr \<lparr>scheme = [], netloc = [], path = ''10.0.0.1:8080'', params = [], query = [],
         fragment = []\<rparr>"
  by code_simp

lemma urlparse_brackets_rejects: "urlparse_brackets ''http://['' = Inl ValueError"
  by code_simp

lemma thorough_always_200:
  "check_proxy_thorough urlparse_brackets utf8_console always_200 ''10.0.0.1:8080'' =
    (Inr (True, ''10.0.0.1:8080'', \<lparr>passed = 3, failed = 0, errors = []\<rparr>),
     map (\<lambda>s. thorough_request ''10.0.0.1:8080'' (fst s)) test_sites)"
  by code_simp

lemma thorough_wikipedia_503:
  "check_proxy_thorough urlparse_brackets utf8_console wikipedia_503 ''10.0.0.1:8080'' =
    (Inr (False, ''10.0.0.1:8080'',
          \<lparr>passed = 2, failed = 1, errors = [''Wikipedia: Status 503'']\<rparr>),
     map (\<lambda>s. thorough_request ''10.0.0.1:8080'' (fst s)) test_sites)"
  by code_simp

lemma thorough_always_ReadTimeout:
  "check_proxy_thorough urlparse_brackets utf8_console always_ReadTimeout ''10.0.0.1:8080'' =
    (Inr (False, ''10.0.0.1:8080'',
          \<lparr>passed = 0, failed = 3,
           errors = [''Google: ReadTimeout'', ''Wikipedia: ReadTimeout'',
                     ''Example.com: ReadTimeout'']\<rparr>),
     map (\<lambda>s. thorough_request ''10.0.0.1:8080'' (fst s)) test_sites)"
  by code_simp

lemma thorough_third_url_200:
  "check_proxy_thorough urlparse_brackets utf8_console third_url_200 ''10.0.0.1:8080'' =
    (Inr (True, ''10.0.0.1:8080'', \<lparr>passed = 3, failed = 0, errors = []\<rparr>),
     map (\<lambda>s. thorough_request ''10.0.0.1:8080'' (fst s)) test_sites)"
  by code_simp

lemma simple_always_200:
  "check_proxy_simple utf8_console always_200 ''10.0.0.1:8080'' =
    (Inr (True, ''10.0.0.1:8080''), [simple_request ''10.0.0.1:8080'' ''http://httpbin.org/ip''])"
  by code_simp

text \<open>
  On a console that cannot encode the marks, \<open>check_proxy_simple\<close> goes through all
  four URLs of a proxy that answers 200 everywhere and returns \<open>(False, proxy)\<close>: each
  \<open>UnicodeEncodeError\<close> of the \<open>print\<close> in the \<open>try\<close> is caught by
  \<open>except Exception\<close>. With a connection that times out the exception of the handler's
  \<open>print\<close> leaves the function, as does the exception of the prints of
  \<open>check_proxy_thorough\<close>.
\<close>

lemma simple_ascii_console_200:
  "check_proxy_simple ascii_console always_200 ''10.0.0.1:8080'' =
    (Inr (False, ''10.0.0.1:8080''), map (simple_request ''10.0.0.1:8080'') test_urls)"
  by code_simp

lemma simple_ascii_console_ConnectTimeout:
  "check_proxy_simple ascii_console always_ConnectTimeout ''10.0.0.1:8080'' =
    (Inl UnicodeEncodeError, [simple_request ''10.0.0.1:8080'' ''http://httpbin.org/ip''])"
  by code_simp

lemma thorough_ascii_console_200:
  "check_proxy_thorough urlparse_brackets ascii_console always_200 ''10.0.0.1:8080'' =
    (Inl UnicodeEncodeError,
     map (\<lambda>s. thorough_request ''10.0.0.1:8080'' (fst s)) test_sites)"
  by code_simp

lemma thorough_rejected_200:
  "check_proxy_thorough urlparse_brackets utf8_console always_200 ''http://['' = (Inl ValueError, [])"
  by (simp add: check_proxy_thorough_rejected [where urlparse = urlparse_brackets]
        urlparse_brackets_rejects)

lemma thorough_rejected_ConnectTimeout:
  "check_proxy_thorough urlparse_brackets utf8_console always_ConnectTimeout ''http://['' =
     (Inl ValueError, [])"
  by (simp add: check_proxy_thorough_rejected [where urlparse = urlparse_brackets]
        urlparse_brackets_rejects)

lemma load_three_lines:
  "map strip (filter (\<lambda>l. \<not> blank l) (split_lines (universal_newlines three_lines))) =
     [''10.0.0.1:8080'', ''socks5://10.0.0.2:1080'', ''http://['']"
  by code_simp

lemma good_files_proxies:
  "good_files ''proxies.txt'' = Some (''10.0.0.1:8080'' @ [LF] @ ''10.0.0.2:8080'' @ [LF])"
  "good_files ''working_proxies.txt'' = Some (''10.0.0.1:8080'' @ [LF] @ ''10.0.0.2:8080'' @ [LF])"
  by (simp_all add: good_files_def)

lemma empty_list_files_proxies:
  "empty_list_files ''proxies.txt'' = Some ('' '' @ [LF])"
  "empty_list_files ''working_proxies.txt'' = Some []"
  by (simp_all add: empty_list_files_def)

lemma Finished_from_case:
  assumes "(case m of Finished w f \<Rightarrow> w = working | _ \<Rightarrow> False)"
  shows "\<exists>f. m = Finished working f"
  using assms by (cases m) simp_all

lemma Crashed_from_case:
  assumes "(case m of Crashed e \<Rightarrow> e = err | _ \<Rightarrow> False)"
  shows "m = Crashed err"
  using assms by (cases m) simp_all

lemma simple_run_reverse:
  "\<exists>f. main_simple good_files utf8_console (every_worker always_200) in_reverse_order =
         Finished [''10.0.0.2:8080'', ''10.0.0.1:8080''] f"
  by (rule Finished_from_case) code_simp

lemma simple_run_forward:
  "\<exists>f. main_simple good_files utf8_console (every_worker always_200) in_submission_order =
         Finished [''10.0.0.1:8080'', ''10.0.0.2:8080''] f"
  by (rule Finished_from_case) code_simp

lemma thorough_run_reverse:
  "\<exists>f. main_thorough good_files urlparse_brackets utf8_console (every_worker always_200) in_reverse_order =
         Finished [''10.0.0.2:8080'', ''10.0.0.1:8080''] f"
  by (rule Finished_from_case) code_simp

lemma thorough_run_forward:
  "\<exists>f. main_thorough good_files urlparse_brackets utf8_console (every_worker always_200)
           in_submission_order =
         Finished [''10.0.0.1:8080'', ''10.0.0.2:8080''] f"
  by (rule Finished_from_case) code_simp

lemma thorough_run_crashes:
  "main_thorough sample_files urlparse_brackets utf8_console (every_worker always_ConnectTimeout)
     in_submission_order = Crashed (WorkerException ValueError)"
  by (rule Crashed_from_case) code_simp

lemma simple_run_two_equal_lines:
  "working_proxies (main_simple two_equal_lines utf8_console (every_worker always_200) in_submission_order) =
     [''10.0.0.1:8080'', ''10.0.0.1:8080'']"
  by code_simp

lemma passing_good_files:
  "[proxy. (i, proxy) \<leftarrow>
      enumerate 0 (load_proxies (''10.0.0.1:8080'' @ [LF] @ ''10.0.0.2:8080'' @ [LF])),
      simple_passes utf8_console (every_worker always_200 i) proxy] =
   [''10.0.0.1:8080'', ''10.0.0.2:8080'']"
  "[proxy. (i, proxy) \<leftarrow>
      enumerate 0 (load_proxies (''10.0.0.1:8080'' @ [LF] @ ''10.0.0.2:8080'' @ [LF])),
      thorough_passes urlparse_brackets utf8_console (every_worker always_200 i) proxy] =
   [''10.0.0.1:8080'', ''10.0.0.2:8080'']"
  by code_simp+

lemma blank_lines_of_samples:
  "list_ex (\<lambda>l. \<not> blank l)
     (split_lines (universal_newlines (''10.0.0.1:8080'' @ [LF] @ ''10.0.0.2:8080'' @ [LF])))"
  "list_all blank (split_lines (universal_newlines ('' '' @ [LF])))"
  "list_all blank (split_lines (universal_newlines []))"
  by code_simp+

section \<open>The claims\<close>

text \<open>
  Claim C9. \<open>check_proxy_simple\<close> short-circuits, on a console that writes the line of
  the deciding URL. When the URLs before \<open>u\<close> all moved on (a status other than 200,
  or an exception that is not a \<open>ConnectTimeout\<close>, \<open>ConnectionError\<close> or
  \<open>ProxyError\<close>), \<open>u\<close> answers 200 and the line of the 200 branch is printed, the
  result is \<open>(True, proxy)\<close> and the requests issued are those up to \<open>u\<close>: none
  goes to a later URL. When \<open>u\<close> instead raises one of the three and the line of its
  handler is printed, the result is \<open>(False, proxy)\<close>, again with no request after
  \<open>u\<close>. When every URL moves on, all four are requested and the result is
  \<open>(False, proxy)\<close>.

  The two \<open>print\<close> calls are part of the property because they are part of the control
  flow: the one of the 200 branch stands inside the \<open>try\<close>, so that what it raises
  is handled like an exception of the request, and the ones of the handlers raise out of
  the function (see \<open>simple_ascii_console_200\<close> and
  \<open>simple_ascii_console_ConnectTimeout\<close>).
\<close>

theorem check_proxy_simple_short_circuits:
  "(test_urls = skipped @ u # later \<and>
    (\<forall>v\<in>set skipped. moves_on (get (simple_request proxy v))) \<and>
    returns_200 (get (simple_request proxy u)) \<and>
    printable console (printed_for proxy (get (simple_request proxy u))) \<longrightarrow>
      check_proxy_simple console get proxy =
        (Inr (True, proxy), map (simple_request proxy) (skipped @ [u]))) \<and>
   (test_urls = skipped @ u # later \<and>
    (\<forall>v\<in>set skipped. moves_on (get (simple_request proxy v))) \<and>
    connection_failure (get (simple_request proxy u)) \<and>
    printable console (printed_for proxy (get (simple_request proxy u))) \<longrightarrow>
      check_proxy_simple console get proxy =
        (Inr (False, proxy), map (simple_request proxy) (skipped @ [u]))) \<and>
   ((\<forall>v\<in>set test_urls. moves_on (get (simple_request proxy v))) \<longrightarrow>
      check_proxy_simple console get proxy =
        (Inr (False, proxy), map (simple_request proxy) test_urls))"
  unfolding check_proxy_simple_def
  using simple_loop_decided [of skipped get proxy console u later]
        simple_loop_undecided [of test_urls get proxy console]
  by metis

theorem check_proxy_simple_short_circuits_witness:
  "moves_on (third_url_200 (simple_request ''10.0.0.1:8080'' ''http://httpbin.org/ip'')) \<and>
   moves_on (third_url_200
     (simple_request ''10.0.0.1:8080'' ''https://api.ipify.org?format=json'')) \<and>
   returns_200 (third_url_200 (simple_request ''10.0.0.1:8080'' ''http://icanhazip.com'')) \<and>
   printable utf8_console
     (printed_for ''10.0.0.1:8080''
        (third_url_200 (simple_request ''10.0.0.1:8080'' ''http://icanhazip.com''))) \<and>
   check_proxy_simple utf8_console third_url_200 ''10.0.0.1:8080'' =
     (Inr (True, ''10.0.0.1:8080''),
      map (simple_request ''10.0.0.1:8080'')
        [''http://httpbin.org/ip'', ''https://api.ipify.org?format=json'',
         ''http://icanhazip.com'']) \<and>
   connection_failure
     (third_url_refused (simple_request ''10.0.0.1:8080'' ''http://icanhazip.com'')) \<and>
   printable utf8_console
     (printed_for ''10.0.0.1:8080''
        (third_url_refused (simple_request ''10.0.0.1:8080'' ''http://icanhazip.com''))) \<and>
   check_proxy_simple utf8_console third_url_refused ''10.0.0.1:8080'' =
     (Inr (False, ''10.0.0.1:8080''),
      map (simple_request ''10.0.0.1:8080'')
        [''http://httpbin.org/ip'', ''https://api.ipify.org?format=json'',
         ''http://icanhazip.com'']) \<and>
   list_all (\<lambda>v. moves_on (always_ReadTimeout (simple_request ''10.0.0.1:8080'' v)))
     test_urls \<and>
   check_proxy_simple utf8_console always_ReadTimeout ''10.0.0.1:8080'' =
     (Inr (False, ''10.0.0.1:8080''), map (simple_request ''10.0.0.1:8080'') test_urls)"
  using
    check_proxy_simple_short_circuits
      [of "[''http://httpbin.org/ip'', ''https://api.ipify.org?format=json'']"
          "''http://icanhazip.com''" "[''https://checkip.amazonaws.com'']"
          third_url_200 "''10.0.0.1:8080''" utf8_console]
    check_proxy_simple_short_circuits
      [of "[''http://httpbin.org/ip'', ''https://api.ipify.org?format=json'']"
          "''http://icanhazip.com''" "[''https://checkip.amazonaws.com'']"
          third_url_refused "''10.0.0.1:8080''" utf8_console]
    check_proxy_simple_short_circuits
      [of "[]" "''http://httpbin.org/ip''" "[]" always_ReadTimeout "''10.0.0.1:8080''"
          utf8_console]
  by (simp add: test_urls_def sample_defs simple_request_def)

text \<open>
  Claim C8. \<open>check_proxy_thorough\<close> returns \<open>is_working = True\<close> only when it
  requested the three test sites and each request returned status 200. Whenever it returns,
  \<open>is_working\<close> is \<open>passed = 3 and failed = 0\<close>, three requests were issued, and
  every request was counted once: in \<open>passed\<close> when it returned 200, in \<open>failed\<close>
  when it returned another status or raised.

  And it does return: once a request is issued and every site answers, with a response or
  with an exception (an instance of \<open>Exception\<close>), the three sites are requested, every
  site is counted once, in \<open>passed\<close> when it returned 200 and in \<open>failed\<close>, with one
  error message, otherwise; the proxy is working exactly when all three returned 200; and
  on a console that writes the result lines this classification is returned. So one status
  other than 200 or one exception makes the proxy fail.
\<close>

theorem check_proxy_thorough_all_or_nothing:
  "(fst (check_proxy_thorough urlparse console get proxy) = Inr (True, p, res) \<longrightarrow>
      map url (snd (check_proxy_thorough urlparse console get proxy)) = map fst test_sites \<and>
      (\<forall>rq\<in>set (snd (check_proxy_thorough urlparse console get proxy)).
         returns_200 (get rq))) \<and>
   (fst (check_proxy_thorough urlparse console get proxy) = Inr (is_working, p, res) \<longrightarrow>
      p = proxy \<and>
      is_working = (passed res = 3 \<and> failed res = 0) \<and>
      length (snd (check_proxy_thorough urlparse console get proxy)) = 3 \<and>
      passed res =
        length (filter (\<lambda>rq. returns_200 (get rq))
                  (snd (check_proxy_thorough urlparse console get proxy))) \<and>
      failed res =
        length (filter (\<lambda>rq. \<not> returns_200 (get rq))
                  (snd (check_proxy_thorough urlparse console get proxy))) \<and>
      passed res + failed res = 3) \<and>
   (snd (check_proxy_thorough urlparse console get proxy) \<noteq> [] \<and>
    (\<forall>s\<in>set test_sites. answered (get (thorough_request proxy (fst s)))) \<longrightarrow>
      (\<exists>tallied.
         map url (snd (check_proxy_thorough urlparse console get proxy)) = map fst test_sites \<and>
         passed tallied =
           length (filter (\<lambda>s. returns_200 (get (thorough_request proxy (fst s))))
                     test_sites) \<and>
         failed tallied =
           length (filter (\<lambda>s. \<not> returns_200 (get (thorough_request proxy (fst s))))
                     test_sites) \<and>
         length (errors tallied) = failed tallied \<and>
         passed tallied + failed tallied = 3 \<and>
         ((passed tallied = 3 \<and> failed tallied = 0) \<longleftrightarrow>
            (\<forall>s\<in>set test_sites. returns_200 (get (thorough_request proxy (fst s))))) \<and>
         (printable console
            (result_lines proxy (passed tallied = 3 \<and> failed tallied = 0) tallied) \<longrightarrow>
            fst (check_proxy_thorough urlparse console get proxy) =
              Inr (passed tallied = 3 \<and> failed tallied = 0, proxy, tallied))))"
proof -
  let ?tr = "snd (check_proxy_thorough urlparse console get proxy)"
  have only_if: "map url ?tr = map fst test_sites \<and> (\<forall>rq\<in>set ?tr. returns_200 (get rq))"
    if r: "fst (check_proxy_thorough urlparse console get proxy) = Inr (True, p, res)"
  proof -
    note facts = check_proxy_thorough_returns [OF r]
    have u: "map url ?tr = map fst test_sites"
      by (simp add: facts(3) comp_def)
    have "length ?tr = 3" by (simp add: facts(3) test_sites_def)
    moreover have "passed res = 3" using facts(2) by simp
    ultimately have "length (filter (\<lambda>rq. returns_200 (get rq)) ?tr) = length ?tr"
      using facts(4) by (simp add: tally_def)
    then have "\<forall>rq\<in>set ?tr. returns_200 (get rq)"
      by (simp only: filter_all_length)
    with u show ?thesis by simp
  qed
  have counts:
    "p = proxy \<and>
     is_working = (passed res = 3 \<and> failed res = 0) \<and>
     length ?tr = 3 \<and>
     passed res = length (filter (\<lambda>rq. returns_200 (get rq)) ?tr) \<and>
     failed res = length (filter (\<lambda>rq. \<not> returns_200 (get rq)) ?tr) \<and>
     passed res + failed res = 3"
    if r: "fst (check_proxy_thorough urlparse console get proxy) = Inr (is_working, p, res)"
  proof -
    note facts = check_proxy_thorough_returns [OF r]
    have len: "length ?tr = 3" by (simp add: facts(3) test_sites_def)
    have ps: "passed res = length (filter (\<lambda>rq. returns_200 (get rq)) ?tr)"
      using facts(4) by (simp add: tally_def)
    have fl: "failed res = length (filter (\<lambda>rq. \<not> returns_200 (get rq)) ?tr)"
      using facts(4) by (simp add: tally_def)
    have "passed res + failed res = 3"
      using sum_length_filter_compl [of "\<lambda>rq. returns_200 (get rq)" ?tr] len
      by (simp only: ps fl)
    with facts(1,2) len ps fl show ?thesis by blast
  qed
  have total: "\<exists>tallied.
         map url ?tr = map fst test_sites \<and>
         passed tallied =
           length (filter (\<lambda>s. returns_200 (get (thorough_request proxy (fst s))))
                     test_sites) \<and>
         failed tallied =
           length (filter (\<lambda>s. \<not> returns_200 (get (thorough_request proxy (fst s))))
                     test_sites) \<and>
         length (errors tallied) = failed tallied \<and>
         passed tallied + failed tallied = 3 \<and>
         ((passed tallied = 3 \<and> failed tallied = 0) \<longleftrightarrow>
            (\<forall>s\<in>set test_sites. returns_200 (get (thorough_request proxy (fst s))))) \<and>
         (printable console
            (result_lines proxy (passed tallied = 3 \<and> failed tallied = 0) tallied) \<longrightarrow>
            fst (check_proxy_thorough urlparse console get proxy) =
              Inr (passed tallied = 3 \<and> failed tallied = 0, proxy, tallied))"
    if a: "?tr \<noteq> [] \<and> (\<forall>s\<in>set test_sites. answered (get (thorough_request proxy (fst s))))"
  proof -
    let ?ok = "\<lambda>s. returns_200 (get (thorough_request proxy (fst s)))"
    obtain t where t:
      "?tr = map (\<lambda>s. thorough_request proxy (fst s)) test_sites"
      "passed t = length (filter ?ok test_sites)"
      "failed t = length (filter (\<lambda>s. \<not> ?ok s) test_sites)"
      "length (errors t) = failed t"
      "passed t + failed t = 3"
      "fst (check_proxy_thorough urlparse console get proxy) =
         (case print_all console (result_lines proxy (passed t = 3 \<and> failed t = 0) t) of
            Some e \<Rightarrow> Inl e
          | None \<Rightarrow> Inr (passed t = 3 \<and> failed t = 0, proxy, t))"
      using check_proxy_thorough_total [OF conjunct1 [OF a] conjunct2 [OF a]] by blast
    have u: "map url ?tr = map fst test_sites" by (simp add: t(1) comp_def)
    have len: "length test_sites = 3" by (simp add: test_sites_def)
    have "passed t = 3 \<longleftrightarrow> (\<forall>s\<in>set test_sites. ?ok s)"
      using filter_all_length [of ?ok test_sites] by (simp only: t(2) len)
    moreover have "passed t = 3 \<longrightarrow> failed t = 0" using t(5) by simp
    ultimately have w: "(passed t = 3 \<and> failed t = 0) \<longleftrightarrow> (\<forall>s\<in>set test_sites. ?ok s)"
      by blast
    have r: "printable console (result_lines proxy (passed t = 3 \<and> failed t = 0) t) \<longrightarrow>
            fst (check_proxy_thorough urlparse console get proxy) =
              Inr (passed t = 3 \<and> failed t = 0, proxy, t)"
      by (simp add: t(6) printable_def)
    from u t(2,3,4,5) w r show ?thesis by (intro exI [of _ t] conjI)
  qed
  from only_if counts total show ?thesis by blast
qed

theorem check_proxy_thorough_all_or_nothing_witness:
  "fst (check_proxy_thorough urlparse_brackets utf8_console always_200 ''10.0.0.1:8080'') =
     Inr (True, ''10.0.0.1:8080'', \<lparr>passed = 3, failed = 0, errors = []\<rparr>) \<and>
   snd (check_proxy_thorough urlparse_brackets utf8_console wikipedia_503 ''10.0.0.1:8080'') \<noteq> [] \<and>
   list_all (\<lambda>s. answered (wikipedia_503 (thorough_request ''10.0.0.1:8080'' (fst s))))
     test_sites \<and>
   fst (check_proxy_thorough urlparse_brackets utf8_console wikipedia_503 ''10.0.0.1:8080'') =
     Inr (False, ''10.0.0.1:8080'',
          \<lparr>passed = 2, failed = 1, errors = [''Wikipedia: Status 503'']\<rparr>) \<and>
   snd (check_proxy_thorough urlparse_brackets utf8_console always_ReadTimeout
          ''10.0.0.1:8080'') \<noteq> [] \<and>
   list_all (\<lambda>s. answered (always_ReadTimeout (thorough_request ''10.0.0.1:8080'' (fst s))))
     test_sites \<and>
   (\<exists>tallied.
      fst (check_proxy_thorough urlparse_brackets utf8_console always_ReadTimeout
             ''10.0.0.1:8080'') = Inr (False, ''10.0.0.1:8080'', tallied) \<and>
      passed tallied = 0 \<and> failed tallied = 3 \<and> length (errors tallied) = 3)"
proof -
  have issued:
    "snd (check_proxy_thorough urlparse_brackets utf8_console always_ReadTimeout
            ''10.0.0.1:8080'') \<noteq> []"
    "snd (check_proxy_thorough urlparse_brackets utf8_console wikipedia_503
            ''10.0.0.1:8080'') \<noteq> []"
    by (simp_all add: thorough_always_ReadTimeout thorough_wikipedia_503 test_sites_def)
  have answered:
    "\<forall>s\<in>set test_sites.
       answered (always_ReadTimeout (thorough_request ''10.0.0.1:8080'' (fst s)))"
    "\<forall>s\<in>set test_sites.
       answered (wikipedia_503 (thorough_request ''10.0.0.1:8080'' (fst s)))"
    by (simp_all add: always_ReadTimeout_def wikipedia_503_def answered_def
          requests_ReadTimeout_def isinstance_def)
  note t = check_proxy_thorough_all_or_nothing
    [of urlparse_brackets utf8_console always_ReadTimeout "''10.0.0.1:8080''"
        "''10.0.0.1:8080''" "\<lparr>passed = 0, failed = 3, errors = []\<rparr>" False]
  have "\<exists>tallied.
      fst (check_proxy_thorough urlparse_brackets utf8_console always_ReadTimeout
             ''10.0.0.1:8080'') = Inr (False, ''10.0.0.1:8080'', tallied) \<and>
      passed tallied = 0 \<and> failed tallied = 3 \<and> length (errors tallied) = 3"
  proof -
    from t [THEN conjunct2, THEN conjunct2, THEN mp, OF conjI [OF issued(1) answered(1)]]
    obtain tallied where tallied:
      "passed tallied =
         length (filter (\<lambda>s. returns_200
           (always_ReadTimeout (thorough_request ''10.0.0.1:8080'' (fst s)))) test_sites)"
      "failed tallied =
         length (filter (\<lambda>s. \<not> returns_200
           (always_ReadTimeout (thorough_request ''10.0.0.1:8080'' (fst s)))) test_sites)"
      "length (errors tallied) = failed tallied"
      "printable utf8_console
         (result_lines ''10.0.0.1:8080'' (passed tallied = 3 \<and> failed tallied = 0) tallied) \<longrightarrow>
       fst (check_proxy_thorough urlparse_brackets utf8_console always_ReadTimeout
              ''10.0.0.1:8080'') =
         Inr (passed tallied = 3 \<and> failed tallied = 0, ''10.0.0.1:8080'', tallied)"
      by (elim exE conjE)
    have p: "passed tallied = 0" "failed tallied = 3"
      using tallied(1,2)
      by (simp_all add: always_ReadTimeout_def returns_200_def test_sites_def)
    have pr: "print_all utf8_console ls = None" for ls
      by (induction ls) (simp_all add: utf8_console_def)
    have "fst (check_proxy_thorough urlparse_brackets utf8_console always_ReadTimeout
              ''10.0.0.1:8080'') = Inr (False, ''10.0.0.1:8080'', tallied)"
      using tallied(4) p by (simp add: printable_def pr)
    with p tallied(3) show ?thesis by (intro exI [of _ tallied]) simp
  qed
  then show ?thesis
    using issued answered
    by (simp add: thorough_always_200 thorough_wikipedia_503 list_all_iff)
qed

text \<open>
  Claim C1. If every request that \<open>check_proxy_simple\<close> issues for a proxy returns
  status 200, and the console writes the line of the 200 branch, it returns
  \<open>(True, proxy)\<close>. If \<open>check_proxy_thorough\<close> issues a request, every request it
  issues returns status 200, and the console writes the line of a working proxy, it returns
  \<open>is_working = True\<close>.

  The claim is about the requests that are issued: it is read with at least one of them.
  \<open>check_proxy_simple\<close> always issues one; \<open>check_proxy_thorough\<close> issues none
  exactly when \<open>urlparse\<close> raises, which is the subject of claim C2. The \<open>print\<close>
  calls belong to the statement because both probers print the result before they return
  it (see \<open>simple_ascii_console_200\<close> and \<open>thorough_ascii_console_200\<close>).
\<close>

theorem all_200_is_working:
  "((\<forall>rq\<in>set (snd (check_proxy_simple console get proxy)).
       returns_200 (get rq) \<and> printable console (printed_for proxy (get rq))) \<longrightarrow>
      fst (check_proxy_simple console get proxy) = Inr (True, proxy)) \<and>
   (snd (check_proxy_thorough urlparse console get proxy) \<noteq> [] \<and>
    (\<forall>rq\<in>set (snd (check_proxy_thorough urlparse console get proxy)).
       returns_200 (get rq)) \<and>
    printable console [Marked Check_mark ('' WORKING: '' @ proxy)] \<longrightarrow>
      (\<exists>res. fst (check_proxy_thorough urlparse console get proxy) = Inr (True, proxy, res)))"
proof (intro conjI impI)
  assume "\<forall>rq\<in>set (snd (check_proxy_simple console get proxy)).
       returns_200 (get rq) \<and> printable console (printed_for proxy (get rq))"
  then show "fst (check_proxy_simple console get proxy) = Inr (True, proxy)"
    by (rule check_proxy_simple_all_200)
next
  assume a: "snd (check_proxy_thorough urlparse console get proxy) \<noteq> [] \<and>
    (\<forall>rq\<in>set (snd (check_proxy_thorough urlparse console get proxy)).
       returns_200 (get rq)) \<and>
    printable console [Marked Check_mark ('' WORKING: '' @ proxy)]"
  then have "console (Marked Check_mark ('' WORKING: '' @ proxy)) = None"
    by (simp add: printable_def split: option.splits)
  with a show "\<exists>res. fst (check_proxy_thorough urlparse console get proxy) =
      Inr (True, proxy, res)"
    by (intro check_proxy_thorough_all_200) blast+
qed

theorem all_200_is_working_witness:
  "list_all (\<lambda>rq. returns_200 (always_200 rq) \<and>
                printable utf8_console (printed_for ''10.0.0.1:8080'' (always_200 rq)))
     (snd (check_proxy_simple utf8_console always_200 ''10.0.0.1:8080'')) \<and>
   fst (check_proxy_simple utf8_console always_200 ''10.0.0.1:8080'') =
     Inr (True, ''10.0.0.1:8080'') \<and>
   snd (check_proxy_thorough urlparse_brackets utf8_console always_200 ''10.0.0.1:8080'') \<noteq> [] \<and>
   list_all (\<lambda>rq. returns_200 (always_200 rq))
     (snd (check_proxy_thorough urlparse_brackets utf8_console always_200 ''10.0.0.1:8080'')) \<and>
   printable utf8_console [Marked Check_mark ('' WORKING: '' @ ''10.0.0.1:8080'')] \<and>
   (\<exists>res. fst (check_proxy_thorough urlparse_brackets utf8_console always_200
                  ''10.0.0.1:8080'') = Inr (True, ''10.0.0.1:8080'', res))"
  using all_200_is_working
    [of utf8_console always_200 "''10.0.0.1:8080''" urlparse_brackets]
  by (simp add: thorough_always_200 test_sites_def list_all_iff always_200_def
        response_200_def returns_200_def printable_def printed_for_def utf8_console_def)

text \<open>
  Claim C5 is not what \<open>check_proxy_thorough\<close> does. For the address \<open>http://[\<close>
  it issues no request at all, because \<open>urlparse(proxy)\<close> raises \<open>ValueError\<close>
  before the loop; \<open>check_proxy_simple\<close> issues its request for the same address. This
  is the defect of claim C2. For every address that \<open>urlparse\<close> accepts the bounds of
  the claim hold (\<open>requests_bounded\<close>).
\<close>

theorem check_proxy_thorough_issues_no_request:
  "check_proxy_thorough urlparse_brackets utf8_console always_200 ''http://['' =
     (Inl ValueError, []) \<and>
   length (snd (check_proxy_thorough urlparse_brackets utf8_console always_200 ''http://['')) =
     0 \<and>
   check_proxy_simple utf8_console always_200 ''http://['' =
     (Inr (True, ''http://[''), [simple_request ''http://['' ''http://httpbin.org/ip''])"
proof -
  have "check_proxy_simple utf8_console always_200 ''http://['' =
     (Inr (True, ''http://[''), [simple_request ''http://['' ''http://httpbin.org/ip''])"
    by code_simp
  then show ?thesis by (simp add: thorough_rejected_200)
qed

text \<open>
  Claim C2 is not what \<open>check_proxy_thorough\<close> does. For the address \<open>http://[\<close>
  the call \<open>urlparse(proxy)\<close>, which stands before the loop and outside every \<open>try\<close>,
  raises \<open>ValueError\<close>; the function issues no request and returns no classification,
  and the exception reaches the pool runner: \<open>main\<close> of \<open>proxy2.py\<close> ends with it.
  \<open>check_proxy_simple\<close> returns \<open>(False, proxy)\<close> for the same address on the same
  network.
\<close>

theorem check_proxy_thorough_propagates_ValueError:
  "urlparse_brackets ''http://['' = Inl ValueError \<and>
   check_proxy_thorough urlparse_brackets utf8_console always_ConnectTimeout ''http://['' =
     (Inl ValueError, []) \<and>
   main_thorough sample_files urlparse_brackets utf8_console (every_worker always_ConnectTimeout)
     in_submission_order = Crashed (WorkerException ValueError) \<and>
   fst (check_proxy_simple utf8_console always_ConnectTimeout ''http://['') = Inr (False, ''http://['')"
proof -
  have "fst (check_proxy_simple utf8_console always_ConnectTimeout ''http://['') = Inr (False, ''http://['')"
    by code_simp
  then show ?thesis
    by (simp add: urlparse_brackets_rejects thorough_rejected_ConnectTimeout
          thorough_run_crashes)
qed

text \<open>
  Claim C3, amended. After a run of \<open>main\<close> that finishes, the working list holds, up to
  order, one entry for every loaded line whose probe was classified pass. So an address
  that was loaded from several lines occurs once for each of those lines that passed, and
  every address occurs at most once when the loaded addresses are distinct. When the list
  is not empty, the output file holds the proxies of the list, each followed by a newline,
  and nothing else: cut at its newlines the file is the list, and the loader reads the list
  back from it.

  The claim as stated has every passing proxy in the list exactly once. Two equal lines in
  the input put the address into the list twice: the counterexample below.
\<close>

theorem working_list_and_output_file:
  "(files ''proxies.txt'' = Some content \<and>
    main_simple files console net finish = Finished working files' \<longrightarrow>
      mset working =
        mset [proxy. (i, proxy) \<leftarrow> enumerate 0 (load_proxies content),
                simple_passes console (net i) proxy] \<and>
      (distinct (load_proxies content) \<longrightarrow> distinct working) \<and>
      (working \<noteq> [] \<longrightarrow>
         files' = files(''working_proxies.txt'' \<mapsto> write_lines working) \<and>
         split_lines (write_lines working) = working @ [[]] \<and>
         load_proxies (write_lines working) = working)) \<and>
   (files ''working_proxies.txt'' = Some content2 \<and>
    main_thorough files urlparse console net finish = Finished working2 files2 \<longrightarrow>
      mset working2 =
        mset [proxy. (i, proxy) \<leftarrow> enumerate 0 (load_proxies content2),
                thorough_passes urlparse console (net i) proxy] \<and>
      (distinct (load_proxies content2) \<longrightarrow> distinct working2) \<and>
      (working2 \<noteq> [] \<longrightarrow>
         files2 = files(''verified_working_proxies.txt'' \<mapsto> write_lines working2) \<and>
         split_lines (write_lines working2) = working2 @ [[]] \<and>
         load_proxies (write_lines working2) = working2))"
proof (rule conjI; rule impI; elim conjE)
  assume a: "files ''proxies.txt'' = Some content"
    "main_simple files console net finish = Finished working files'"
  show "mset working =
        mset [proxy. (i, proxy) \<leftarrow> enumerate 0 (load_proxies content),
                simple_passes console (net i) proxy] \<and>
      (distinct (load_proxies content) \<longrightarrow> distinct working) \<and>
      (working \<noteq> [] \<longrightarrow>
         files' = files(''working_proxies.txt'' \<mapsto> write_lines working) \<and>
         split_lines (write_lines working) = working @ [[]] \<and>
         load_proxies (write_lines working) = working)"
    by (rule finished_run [OF main_simple_Finished [where files = files, OF a]])
next
  assume a: "files ''working_proxies.txt'' = Some content2"
    "main_thorough files urlparse console net finish = Finished working2 files2"
  show "mset working2 =
        mset [proxy. (i, proxy) \<leftarrow> enumerate 0 (load_proxies content2),
                thorough_passes urlparse console (net i) proxy] \<and>
      (distinct (load_proxies content2) \<longrightarrow> distinct working2) \<and>
      (working2 \<noteq> [] \<longrightarrow>
         files2 = files(''verified_working_proxies.txt'' \<mapsto> write_lines working2) \<and>
         split_lines (write_lines working2) = working2 @ [[]] \<and>
         load_proxies (write_lines working2) = working2)"
    by (rule finished_run [OF main_thorough_Finished [where files = files, OF a]])
qed

theorem working_list_and_output_file_witness:
  "good_files ''proxies.txt'' = Some (''10.0.0.1:8080'' @ [LF] @ ''10.0.0.2:8080'' @ [LF]) \<and>
   main_simple good_files utf8_console (every_worker always_200) in_reverse_order =
     Finished [''10.0.0.2:8080'', ''10.0.0.1:8080'']
       (good_files(''working_proxies.txt'' \<mapsto>
          write_lines [''10.0.0.2:8080'', ''10.0.0.1:8080''])) \<and>
   load_proxies (write_lines [''10.0.0.2:8080'', ''10.0.0.1:8080'']) =
     [''10.0.0.2:8080'', ''10.0.0.1:8080''] \<and>
   good_files ''working_proxies.txt'' =
     Some (''10.0.0.1:8080'' @ [LF] @ ''10.0.0.2:8080'' @ [LF]) \<and>
   main_thorough good_files urlparse_brackets utf8_console (every_worker always_200) in_reverse_order =
     Finished [''10.0.0.2:8080'', ''10.0.0.1:8080'']
       (good_files(''verified_working_proxies.txt'' \<mapsto>
          write_lines [''10.0.0.2:8080'', ''10.0.0.1:8080'']))"
proof -
  obtain f where f: "main_simple good_files utf8_console (every_worker always_200) in_reverse_order =
         Finished [''10.0.0.2:8080'', ''10.0.0.1:8080''] f"
    using simple_run_reverse by blast
  obtain g where g:
    "main_thorough good_files urlparse_brackets utf8_console (every_worker always_200) in_reverse_order =
         Finished [''10.0.0.2:8080'', ''10.0.0.1:8080''] g"
    using thorough_run_reverse by blast
  show ?thesis
    using working_list_and_output_file
      [of good_files "''10.0.0.1:8080'' @ [LF] @ ''10.0.0.2:8080'' @ [LF]" utf8_console
          "every_worker always_200" in_reverse_order
          "[''10.0.0.2:8080'', ''10.0.0.1:8080'']" f
          "''10.0.0.1:8080'' @ [LF] @ ''10.0.0.2:8080'' @ [LF]" urlparse_brackets
          "[''10.0.0.2:8080'', ''10.0.0.1:8080'']" g]
      f g good_files_proxies
    by simp
qed

theorem working_list_repeats_counterexample:
  "load_proxies (''10.0.0.1:8080'' @ [LF] @ ''10.0.0.1:8080'' @ [LF]) =
     [''10.0.0.1:8080'', ''10.0.0.1:8080''] \<and>
   working_proxies (main_simple two_equal_lines utf8_console (every_worker always_200) in_submission_order) =
     [''10.0.0.1:8080'', ''10.0.0.1:8080'']"
  by code_simp

text \<open>
  Claim C4. The loader delivers the lines of the file that are not blank, stripped of the
  whitespace around them, in the order of the file; a line that is empty or holds only
  whitespace delivers nothing. No delivered proxy is empty, begins or ends with
  whitespace, or contains a line break.
\<close>

theorem loader_keeps_non_blank_lines:
  "load_proxies content =
     map strip (filter (\<lambda>l. \<not> blank l) (split_lines (universal_newlines content))) \<and>
   (\<forall>p\<in>set (load_proxies content).
      p \<noteq> [] \<and> \<not> isspace (hd p) \<and> \<not> isspace (last p) \<and> LF \<notin> set p \<and> CR \<notin> set p)"
  using load_proxies_eq [of content] load_proxies_clean [of _ content]
  by (simp add: non_blank_lines_stripped_def clean_def)

theorem loader_keeps_non_blank_lines_witness:
  "load_proxies three_lines = [''10.0.0.1:8080'', ''socks5://10.0.0.2:1080'', ''http://['']"
  using loader_keeps_non_blank_lines [of three_lines] by (simp add: load_three_lines)

text \<open>
  Claim C6. The set of working proxies, and with it the set of lines written, does not
  depend on the order of completion: a permutation of the results of the workers gives the
  same set from the collecting loop, in \<open>proxy.py\<close> and in \<open>proxy2.py\<close>; and a run
  of \<open>main\<close> that finishes under one order of completion finishes under every other,
  with the same set.
\<close>

theorem aggregation_order_independent:
  "(mset rs' = mset rs \<and> collect_simple rs [] = Inr w \<longrightarrow>
      (\<exists>w'. collect_simple rs' [] = Inr w' \<and> set w' = set w \<and>
             set (lines_written w') = set (lines_written w))) \<and>
   (mset ts' = mset ts \<and> collect_thorough ts [] = Inr v \<longrightarrow>
      (\<exists>v'. collect_thorough ts' [] = Inr v' \<and> set v' = set v \<and>
             set (lines_written v') = set (lines_written v))) \<and>
   (main_simple files console net finish = Finished w1 files1 \<longrightarrow>
      (\<exists>w2 files2. main_simple files console net finish' = Finished w2 files2 \<and> set w2 = set w1 \<and>
                    set (lines_written w2) = set (lines_written w1))) \<and>
   (main_thorough files urlparse console net finish = Finished v1 files3 \<longrightarrow>
      (\<exists>v2 files4. main_thorough files urlparse console net finish' = Finished v2 files4 \<and>
                    set v2 = set v1 \<and> set (lines_written v2) = set (lines_written v1)))"
proof (intro conjI impI)
  show "\<exists>w'. collect_simple rs' [] = Inr w' \<and> set w' = set w \<and>
             set (lines_written w') = set (lines_written w)"
    if "mset rs' = mset rs \<and> collect_simple rs [] = Inr w"
    using conjunct1 [OF that] conjunct2 [OF that] by (rule collect_simple_any_order)
  show "\<exists>v'. collect_thorough ts' [] = Inr v' \<and> set v' = set v \<and>
             set (lines_written v') = set (lines_written v)"
    if "mset ts' = mset ts \<and> collect_thorough ts [] = Inr v"
    using conjunct1 [OF that] conjunct2 [OF that] by (rule collect_thorough_any_order)
  show "\<exists>w2 files2. main_simple files console net finish' = Finished w2 files2 \<and> set w2 = set w1 \<and>
                    set (lines_written w2) = set (lines_written w1)"
    if "main_simple files console net finish = Finished w1 files1"
    using that by (rule main_simple_any_order)
  show "\<exists>v2 files4. main_thorough files urlparse console net finish' = Finished v2 files4 \<and>
                    set v2 = set v1 \<and> set (lines_written v2) = set (lines_written v1)"
    if "main_thorough files urlparse console net finish = Finished v1 files3"
    using that by (rule main_thorough_any_order)
qed

theorem aggregation_order_independent_witness:
  "mset [Inr (True, ''c''), Inr (False, ''b''), Inr (True, ''a'')] =
     mset [Inr (True, ''a''), Inr (False, ''b''), Inr (True, ''c'') :: exn + bool \<times> string] \<and>
   collect_simple [Inr (True, ''a''), Inr (False, ''b''), Inr (True, ''c'')] [] =
     Inr [''a'', ''c''] \<and>
   collect_simple [Inr (True, ''c''), Inr (False, ''b''), Inr (True, ''a'')] [] =
     Inr [''c'', ''a''] \<and>
   (\<exists>f. main_simple good_files utf8_console (every_worker always_200) in_submission_order =
      Finished [''10.0.0.1:8080'', ''10.0.0.2:8080''] f) \<and>
   (\<exists>w f. main_simple good_files utf8_console (every_worker always_200) in_reverse_order = Finished w f \<and>
      set w = {''10.0.0.1:8080'', ''10.0.0.2:8080''}) \<and>
   (\<exists>f. main_thorough good_files urlparse_brackets utf8_console (every_worker always_200)
           in_submission_order =
      Finished [''10.0.0.1:8080'', ''10.0.0.2:8080''] f) \<and>
   (\<exists>w f. main_thorough good_files urlparse_brackets utf8_console (every_worker always_200)
           in_reverse_order = Finished w f \<and>
      set w = {''10.0.0.1:8080'', ''10.0.0.2:8080''})"
proof -
  obtain f where f: "main_simple good_files utf8_console (every_worker always_200) in_submission_order =
         Finished [''10.0.0.1:8080'', ''10.0.0.2:8080''] f"
    using simple_run_forward by blast
  obtain g where g:
    "main_thorough good_files urlparse_brackets utf8_console (every_worker always_200) in_submission_order =
         Finished [''10.0.0.1:8080'', ''10.0.0.2:8080''] g"
    using thorough_run_forward by blast
  have m: "mset [Inr (True, ''c''), Inr (False, ''b''), Inr (True, ''a'')] =
     mset [Inr (True, ''a''), Inr (False, ''b''), Inr (True, ''c'') :: exn + bool \<times> string]"
    by (simp add: add_mset_commute)
  note t = aggregation_order_independent
      [of "[Inr (True, ''c''), Inr (False, ''b''), Inr (True, ''a'')]"
          "[Inr (True, ''a''), Inr (False, ''b''), Inr (True, ''c'')]" "[''a'', ''c'']"
          "[]" "[]" "[]"
          good_files utf8_console "every_worker always_200" in_submission_order
          "[''10.0.0.1:8080'', ''10.0.0.2:8080'']" f in_reverse_order
          urlparse_brackets "[''10.0.0.1:8080'', ''10.0.0.2:8080'']" g]
  obtain w2 f2 where
    s: "main_simple good_files utf8_console (every_worker always_200) in_reverse_order = Finished w2 f2"
      "set w2 = set [''10.0.0.1:8080'', ''10.0.0.2:8080'']"
    using t [THEN conjunct2, THEN conjunct2, THEN conjunct1, THEN mp, OF f]
    by (elim exE conjE)
  obtain v2 g2 where
    u: "main_thorough good_files urlparse_brackets utf8_console (every_worker always_200) in_reverse_order =
          Finished v2 g2"
      "set v2 = set [''10.0.0.1:8080'', ''10.0.0.2:8080'']"
    using t [THEN conjunct2, THEN conjunct2, THEN conjunct2, THEN mp, OF g]
    by (elim exE conjE)
  have c1: "collect_simple [Inr (True, ''a''), Inr (False, ''b''), Inr (True, ''c'')] [] =
     Inr [''a'', ''c'']"
    by simp
  have c2: "collect_simple [Inr (True, ''c''), Inr (False, ''b''), Inr (True, ''a'')] [] =
     Inr [''c'', ''a'']"
    by simp
  have s': "\<exists>w f. main_simple good_files utf8_console (every_worker always_200) in_reverse_order =
      Finished w f \<and> set w = {''10.0.0.1:8080'', ''10.0.0.2:8080''}"
    using s by (intro exI [of _ w2] exI [of _ f2]) simp
  have u': "\<exists>w f. main_thorough good_files urlparse_brackets utf8_console (every_worker always_200)
           in_reverse_order = Finished w f \<and>
      set w = {''10.0.0.1:8080'', ''10.0.0.2:8080''}"
    using u by (intro exI [of _ v2] exI [of _ g2]) simp
  have f': "\<exists>f. main_simple good_files utf8_console (every_worker always_200) in_submission_order =
      Finished [''10.0.0.1:8080'', ''10.0.0.2:8080''] f"
    by (rule simple_run_forward)
  have g': "\<exists>f. main_thorough good_files urlparse_brackets utf8_console (every_worker always_200)
           in_submission_order =
      Finished [''10.0.0.1:8080'', ''10.0.0.2:8080''] f"
    by (rule thorough_run_forward)
  from m c1 c2 f' s' g' u' show ?thesis by (intro conjI)
qed

text \<open>
  Claim C10. The success rate divides by the number of loaded proxies: it has a value when
  that number is positive and raises \<open>ZeroDivisionError\<close> when it is zero. When the
  input file exists and has a line that is not blank, the number is positive and \<open>main\<close>
  does not end in \<open>ZeroDivisionError\<close>; when the file exists and all of its lines are
  blank, \<open>main\<close> ends in \<open>ZeroDivisionError\<close>, since the division is not guarded.
\<close>

theorem success_rate_needs_a_proxy:
  "(0 < total_count \<longrightarrow> (\<exists>rate. success_rate n total_count = Inr rate)) \<and>
   success_rate n 0 = Inl ZeroDivisionError \<and>
   (files ''proxies.txt'' = Some content \<longrightarrow>
      ((\<exists>l\<in>set (split_lines (universal_newlines content)). \<not> blank l) \<longrightarrow>
         0 < length (load_proxies content) \<and>
         main_simple files console net finish \<noteq> Crashed ZeroDivisionError) \<and>
      ((\<forall>l\<in>set (split_lines (universal_newlines content)). blank l) \<longrightarrow>
         main_simple files console net finish = Crashed ZeroDivisionError)) \<and>
   (files ''working_proxies.txt'' = Some content' \<longrightarrow>
      ((\<exists>l\<in>set (split_lines (universal_newlines content')). \<not> blank l) \<longrightarrow>
         0 < length (load_proxies content') \<and>
         main_thorough files urlparse console net finish \<noteq> Crashed ZeroDivisionError) \<and>
      ((\<forall>l\<in>set (split_lines (universal_newlines content')). blank l) \<longrightarrow>
         main_thorough files urlparse console net finish = Crashed ZeroDivisionError))"
proof -
  have rate: "(0 < total_count \<longrightarrow> (\<exists>rate. success_rate n total_count = Inr rate)) \<and>
      success_rate n 0 = Inl ZeroDivisionError"
    by (simp add: success_rate_def)
  have simple: "((\<exists>l\<in>set (split_lines (universal_newlines content)). \<not> blank l) \<longrightarrow>
         0 < length (load_proxies content) \<and>
         main_simple files console net finish \<noteq> Crashed ZeroDivisionError) \<and>
      ((\<forall>l\<in>set (split_lines (universal_newlines content)). blank l) \<longrightarrow>
         main_simple files console net finish = Crashed ZeroDivisionError)"
    if f: "files ''proxies.txt'' = Some content"
  proof (cases "load_proxies content = []")
    case True
    then show ?thesis
      using non_blank_line_iff [of content]
      by (simp add: main_simple_cases [where files = files, OF f])
  next
    case False
    then show ?thesis
      using non_blank_line_iff [of content] collect_simple_not_ZeroDivisionError
      by (auto simp: main_simple_cases [where files = files, OF f] split: sum.splits)
  qed
  have thorough: "((\<exists>l\<in>set (split_lines (universal_newlines content')). \<not> blank l) \<longrightarrow>
         0 < length (load_proxies content') \<and>
         main_thorough files urlparse console net finish \<noteq> Crashed ZeroDivisionError) \<and>
      ((\<forall>l\<in>set (split_lines (universal_newlines content')). blank l) \<longrightarrow>
         main_thorough files urlparse console net finish = Crashed ZeroDivisionError)"
    if f: "files ''working_proxies.txt'' = Some content'"
  proof (cases "load_proxies content' = []")
    case True
    then show ?thesis
      using non_blank_line_iff [of content']
      by (simp add: main_thorough_cases [where files = files, OF f])
  next
    case False
    then show ?thesis
      using non_blank_line_iff [of content'] collect_thorough_not_ZeroDivisionError
      by (auto simp: main_thorough_cases [where files = files, OF f] split: sum.splits)
  qed
  from rate simple thorough show ?thesis by blast
qed

theorem success_rate_needs_a_proxy_witness:
  "list_ex (\<lambda>l. \<not> blank l)
     (split_lines (universal_newlines (''10.0.0.1:8080'' @ [LF] @ ''10.0.0.2:8080'' @ [LF]))) \<and>
   0 < length (load_proxies (''10.0.0.1:8080'' @ [LF] @ ''10.0.0.2:8080'' @ [LF])) \<and>
   main_simple good_files utf8_console (every_worker always_200) in_submission_order \<noteq>
     Crashed ZeroDivisionError \<and>
   main_thorough good_files urlparse_brackets utf8_console (every_worker always_200) in_submission_order \<noteq>
     Crashed ZeroDivisionError \<and>
   success_rate 1 2 = Inr 50 \<and>
   list_all blank (split_lines (universal_newlines ('' '' @ [LF]))) \<and>
   main_simple empty_list_files utf8_console (every_worker always_200) in_submission_order =
     Crashed ZeroDivisionError \<and>
   main_thorough empty_list_files urlparse_brackets utf8_console (every_worker always_200)
     in_submission_order = Crashed ZeroDivisionError"
  using
    success_rate_needs_a_proxy
      [of 2 1 good_files "''10.0.0.1:8080'' @ [LF] @ ''10.0.0.2:8080'' @ [LF]" utf8_console
          "every_worker always_200" in_submission_order
          "''10.0.0.1:8080'' @ [LF] @ ''10.0.0.2:8080'' @ [LF]" urlparse_brackets]
    success_rate_needs_a_proxy
      [of 2 1 empty_list_files "'' '' @ [LF]" utf8_console
          "every_worker always_200" in_submission_order "[]" urlparse_brackets]
    blank_lines_of_samples good_files_proxies empty_list_files_proxies
  by (simp add: list_all_iff list_ex_iff success_rate_def)

end
